theory Spec2Isabelle
  imports Complex_Main "HOL-Library.Word" "HOL-Library.Mapping"
begin

unbundle bit_operations_syntax


section \<open>Go values shared by the packages\<close>

text \<open>
  A Go \<open>error\<close> value is a message, possibly wrapping another error
  (\<open>fmt.Errorf("...: %w", err)\<close>). A run-time panic is a value of its own type, and
  a function that can panic returns \<open>go_panic + 'a\<close>.
\<close>

datatype error = Error string | Wrap string error

datatype go_panic = Panic string

text \<open>
  \<open>math/rand\<close>: a generator \<open>*rand.Rand\<close> is the stream of raw values it will
  deliver and the number of values already consumed. \<open>Intn\<close> and \<open>Int63n\<close> panic
  for \<open>n \<le> 0\<close> and otherwise reduce the delivered raw value modulo \<open>n\<close>.
\<close>

record Rand =
  stream :: "nat \<Rightarrow> nat"
  used :: nat

definition Int63n :: "Rand \<Rightarrow> int \<Rightarrow> go_panic + (int \<times> Rand)" where
  "Int63n r n =
     (if n \<le> 0 then Inl (Panic ''invalid argument to Int63n'')
      else Inr (int (stream r (used r)) mod n, r\<lparr>used := Suc (used r)\<rparr>))"

definition Intn :: "Rand \<Rightarrow> int \<Rightarrow> go_panic + (int \<times> Rand)" where
  "Intn r n =
     (if n \<le> 0 then Inl (Panic ''invalid argument to Intn'')
      else Inr (int (stream r (used r)) mod n, r\<lparr>used := Suc (used r)\<rparr>))"

text \<open>Indexing a slice panics outside \<open>0 \<le> i < len\<close>.\<close>

definition index :: "'a list \<Rightarrow> int \<Rightarrow> go_panic + 'a" where
  "index xs i =
     (if 0 \<le> i \<and> i < int (length xs) then Inr (xs ! nat i)
      else Inl (Panic ''index out of range''))"


section \<open>Package urls: URLManager\<close>

record URLManager =
  urls :: "string list"
  um_rand :: Rand

text \<open>
  The file system as \<open>LoadFromFile\<close> sees it: \<open>os.Open\<close> fails with an error or
  yields a file; a \<open>bufio.Scanner\<close> over the file delivers its lines one by one and then
  stops, with \<open>scanner.Err()\<close> either nil or the error that ended the scan.
\<close>

record File =
  scan_lines :: "string list"
  scan_err :: "error option"

type_synonym FileSystem = "string \<Rightarrow> error + File"

text \<open>The loop \<open>for scanner.Scan() { ... }\<close> over the lines still to be delivered.\<close>

fun scan_loop :: "string list \<Rightarrow> string list \<Rightarrow> string list" where
  "scan_loop us [] = us"
| "scan_loop us (url # rest) = scan_loop (if url \<noteq> '''' then us @ [url] else us) rest"

definition LoadFromFile :: "URLManager \<Rightarrow> FileSystem \<Rightarrow> string \<Rightarrow> error option \<times> URLManager" where
  "LoadFromFile m fs filePath =
     (case fs filePath of
        Inl err \<Rightarrow> (Some err, m)
      | Inr file \<Rightarrow>
          (let us = scan_loop [] (scan_lines file) in
           case scan_err file of
             Some err \<Rightarrow> (Some err, m)
           | None \<Rightarrow> (None, m\<lparr>urls := us\<rparr>)))"

definition GetRandomURL :: "URLManager \<Rightarrow> (go_panic + string) \<times> URLManager" where
  "GetRandomURL m =
     (if length (urls m) = 0 then (Inr ''https://example.com'', m)
      else case Intn (um_rand m) (int (length (urls m))) of
             Inl p \<Rightarrow> (Inl p, m)
           | Inr (i, r) \<Rightarrow> (index (urls m) i, m\<lparr>um_rand := r\<rparr>))"

definition Count :: "URLManager \<Rightarrow> int" where
  "Count m = int (length (urls m))"


section \<open>Package ipspoof: IPSpoofer\<close>

text \<open>
  An address after \<open>To4()\<close> is four bytes. \<open>net.ParseIP(s).To4()\<close> belongs to the
  standard library and is a parameter of the constructor: it yields the four bytes or nil.
\<close>

type_synonym byte = "8 word"
type_synonym uint32 = "32 word"
type_synonym IPv4 = "byte \<times> byte \<times> byte \<times> byte"

record IPSpoofer =
  startIP :: IPv4
  endIP :: IPv4
  sp_rand :: Rand

definition octets :: "IPv4 \<Rightarrow> byte list" where
  "octets ip = (case ip of (a, b, c, d) \<Rightarrow> [a, b, c, d])"

text \<open>
  The loop \<open>for i := 0; i < 4; i++\<close> of \<open>NewIPSpoofer\<close> over the pairs
  \<open>(startIP[i], endIP[i])\<close> still to be compared: \<open>True\<close> when it returns the error,
  \<open>False\<close> when it breaks or runs to its end.
\<close>

fun start_after_end :: "(byte \<times> byte) list \<Rightarrow> bool" where
  "start_after_end [] = False"
| "start_after_end ((s, e) # rest) =
     (if s > e then True else if s < e then False else start_after_end rest)"

definition NewIPSpoofer ::
  "(string \<Rightarrow> IPv4 option) \<Rightarrow> Rand \<Rightarrow> string \<Rightarrow> string \<Rightarrow> error + IPSpoofer" where
  "NewIPSpoofer ParseIP_To4 source startIPStr endIPStr =
     (case ParseIP_To4 startIPStr of
        None \<Rightarrow> Inl (Error (''invalid start IP address: '' @ startIPStr))
      | Some start \<Rightarrow>
          (case ParseIP_To4 endIPStr of
             None \<Rightarrow> Inl (Error (''invalid end IP address: '' @ endIPStr))
           | Some end \<Rightarrow>
               if start_after_end (zip (octets start) (octets end))
               then Inl (Error (''start IP ('' @ startIPStr
                          @ '') must be less than or equal to end IP ('' @ endIPStr @ '')''))
               else Inr \<lparr>startIP = start, endIP = end, sp_rand = source\<rparr>))"

definition ipToUint32 :: "IPv4 \<Rightarrow> uint32" where
  "ipToUint32 ip =
     (case ip of (a, b, c, d) \<Rightarrow>
        push_bit 24 (ucast a) OR push_bit 16 (ucast b) OR push_bit 8 (ucast c) OR ucast d)"

definition uint32ToIP :: "uint32 \<Rightarrow> IPv4" where
  "uint32ToIP ipInt =
     (ucast (drop_bit 24 ipInt), ucast (drop_bit 16 ipInt), ucast (drop_bit 8 ipInt), ucast ipInt)"

text \<open>\<open>net.IP.String\<close> on a four-byte address: dotted decimal, each byte without leading zeros.\<close>

definition digit :: "nat \<Rightarrow> char" where
  "digit n = char_of (48 + n)"

definition ubtoa :: "byte \<Rightarrow> string" where
  "ubtoa v =
     (let n = unat v in
      if n < 10 then [digit n]
      else if n < 100 then [digit (n div 10), digit (n mod 10)]
      else [digit (n div 100), digit (n div 10 mod 10), digit (n mod 10)])"

definition IP_String :: "IPv4 \<Rightarrow> string" where
  "IP_String ip =
     (case ip of (a, b, c, d) \<Rightarrow> ubtoa a @ ''.'' @ ubtoa b @ ''.'' @ ubtoa c @ ''.'' @ ubtoa d)"

text \<open>
  \<open>GetRandomIP\<close> up to \<open>randomInt\<close>: the difference \<open>endInt - startInt + 1\<close> is
  computed in \<open>uint32\<close> and wraps; its conversion to \<open>int64\<close> is the unsigned value; the
  conversion of the draw back to \<open>uint32\<close> truncates.
\<close>

definition randomInt :: "IPSpoofer \<Rightarrow> go_panic + (uint32 \<times> Rand)" where
  "randomInt s =
     (let startInt = ipToUint32 (startIP s);
          endInt = ipToUint32 (endIP s)
      in case Int63n (sp_rand s) (uint (endInt - startInt + 1)) of
           Inl p \<Rightarrow> Inl p
         | Inr (k, r) \<Rightarrow> Inr (startInt + word_of_int k, r))"

definition GetRandomIP :: "IPSpoofer \<Rightarrow> (go_panic + string) \<times> IPSpoofer" where
  "GetRandomIP s =
     (case randomInt s of
        Inl p \<Rightarrow> (Inl p, s)
      | Inr (x, r) \<Rightarrow> (Inr (IP_String (uint32ToIP x)), s\<lparr>sp_rand := r\<rparr>))"


section \<open>Package internal: HTTPClient\<close>

text \<open>
  \<open>net/http\<close> is the environment of \<open>Get\<close>: \<open>http.NewRequest("GET", url, nil)\<close>
  and \<open>client.Do(req)\<close> each yield an error or a value. A response carries its status
  code; \<open>Do\<close> receives the client, so its timeout and redirect policy are visible to it.
\<close>

record Request =
  URL :: string
  Header :: "(string \<times> string) list"

record Response =
  StatusCode :: int
  Status :: string

definition ErrUseLastResponse :: error where
  "ErrUseLastResponse = Error ''net/http: use last response''"

record Client =
  Timeout :: nat
  CheckRedirect :: "Request \<Rightarrow> Request list \<Rightarrow> error option"

record Net =
  NewRequest :: "string \<Rightarrow> error + Request"
  Do :: "Client \<Rightarrow> Request \<Rightarrow> error + Response"

text \<open>
  The callback is a zero-argument function with an effect; here it acts on a state
  \<open>'s\<close> that \<open>Get\<close> passes through. \<open>None\<close> is the nil callback.
\<close>

record 's HTTPClient =
  client :: Client
  userAgent :: string
  requestCallback :: "('s \<Rightarrow> 's) option"

definition NewHTTPClient :: "('s \<Rightarrow> 's) option \<Rightarrow> 's HTTPClient" where
  "NewHTTPClient callback =
     \<lparr>client = \<lparr>Timeout = 10, CheckRedirect = (\<lambda>req via. Some ErrUseLastResponse)\<rparr>,
      userAgent = ''Mozilla/5.0 (Windows NT 10.0; Win64; x64) AppleWebKit/537.36 (KHTML, like Gecko) Chrome/91.0.4472.124 Safari/537.36'',
      requestCallback = callback\<rparr>"

definition SetUserAgent :: "'s HTTPClient \<Rightarrow> string \<Rightarrow> 's HTTPClient" where
  "SetUserAgent c ua = c\<lparr>userAgent := ua\<rparr>"

definition Header_Set :: "string \<Rightarrow> string \<Rightarrow> Request \<Rightarrow> Request" where
  "Header_Set k v req = req\<lparr>Header := (k, v) # filter (\<lambda>kv. fst kv \<noteq> k) (Header req)\<rparr>"

definition set_headers :: "'s HTTPClient \<Rightarrow> Request \<Rightarrow> Request" where
  "set_headers c req =
     Header_Set ''Cache-Control'' ''max-age=0''
      (Header_Set ''Upgrade-Insecure-Requests'' ''1''
        (Header_Set ''Connection'' ''keep-alive''
          (Header_Set ''Accept-Language'' ''en-US,en;q=0.5''
            (Header_Set ''Accept'' ''text/html,application/xhtml+xml,application/xml;q=0.9,image/webp,*/*;q=0.8''
              (Header_Set ''User-Agent'' (userAgent c) req)))))"

definition Get :: "'s HTTPClient \<Rightarrow> Net \<Rightarrow> string \<Rightarrow> 's \<Rightarrow> error option \<times> 's" where
  "Get c net url s =
     (case NewRequest net url of
        Inl err \<Rightarrow> (Some (Wrap ''error creating request'' err), s)
      | Inr req \<Rightarrow>
          (case Do net (client c) (set_headers c req) of
             Inl err \<Rightarrow> (Some (Wrap ''request error'' err), s)
           | Inr resp \<Rightarrow>
               (None, case requestCallback c of None \<Rightarrow> s | Some callback \<Rightarrow> callback s)))"


section \<open>Package config: the settings read by the generator\<close>

text \<open>
  Go's \<open>int\<close> is taken at its 64-bit width: arithmetic wraps around and comparisons
  are signed (\<open>\<le>s\<close>, \<open><s\<close>).
\<close>

type_synonym go_int = "64 word"

record Config =
  ConcurrentUsers :: go_int
  RequestsPerSecond :: go_int
  URLFilePath :: string
  IPRangeStart :: string
  IPRangeEnd :: string
  Enabled :: bool

definition GetConcurrentUsers :: "Config \<Rightarrow> go_int" where
  "GetConcurrentUsers c = ConcurrentUsers c"

definition IsEnabled :: "Config \<Rightarrow> bool" where
  "IsEnabled c = Enabled c"


section \<open>Package internal: BrowserUser and TrafficGenerator\<close>

text \<open>
  A channel that is only ever closed is open or closed; closing it twice panics.
  The effects of the generator on its sessions are recorded, in order, as events:
  the goroutine launched by \<open>user.Start()\<close>, the cancellation signal
  \<open>close(u.stopChan)\<close> of \<open>user.Stop()\<close>, the removal \<open>delete(g.users, i)\<close>, and the
  goroutine launched by \<open>go g.manageUsers()\<close>.
\<close>

datatype chan = Open | Closed

datatype event = Started go_int | Cancelled go_int | Deleted go_int | ManagerStarted

text \<open>
  Of a session, the handle, the source address drawn from the spoofer and the stop channel
  are kept; its user agent, think time and session time are drawn from generators of
  their own and are read by the session's goroutine only.
\<close>

record BrowserUser =
  ID :: go_int
  SourceIP :: string
  stopChan :: chan

text \<open>Time is the clock reading in nanoseconds; a \<open>Duration\<close> is a 64-bit count of them.\<close>

type_synonym Time = int

record TrafficGenerator =
  config :: Config
  urlManager :: URLManager
  ipSpoofer :: IPSpoofer
  users :: "(go_int, BrowserUser) mapping"
  wg :: nat
  running :: bool
  gen_stopChan :: chan
  requestCount :: go_int
  requestsStart :: Time
  events :: "event list"

definition NewURLManager :: "Rand \<Rightarrow> URLManager" where
  "NewURLManager source = \<lparr>urls = [], um_rand = source\<rparr>"

definition NewTrafficGenerator ::
  "FileSystem \<Rightarrow> (string \<Rightarrow> IPv4 option) \<Rightarrow> Rand \<Rightarrow> Rand \<Rightarrow> Time \<Rightarrow> Config
     \<Rightarrow> error + TrafficGenerator" where
  "NewTrafficGenerator fs ParseIP_To4 urlSource ipSource now cfg =
     (case LoadFromFile (NewURLManager urlSource) fs (URLFilePath cfg) of
        (Some err, _) \<Rightarrow> Inl (Wrap ''failed to load URLs'' err)
      | (None, m) \<Rightarrow>
          (case NewIPSpoofer ParseIP_To4 ipSource (IPRangeStart cfg) (IPRangeEnd cfg) of
             Inl err \<Rightarrow> Inl (Wrap ''failed to create IP spoofer'' err)
           | Inr sp \<Rightarrow>
               Inr \<lparr>config = cfg, urlManager = m, ipSpoofer = sp, users = Mapping.empty,
                    wg = 0, running = False, gen_stopChan = Open, requestCount = 0,
                    requestsStart = now, events = []\<rparr>))"

definition NewBrowserUser :: "go_int \<Rightarrow> IPSpoofer \<Rightarrow> (go_panic + BrowserUser) \<times> IPSpoofer" where
  "NewBrowserUser i ipspoofer =
     (case GetRandomIP ipspoofer of
        (Inl p, sp) \<Rightarrow> (Inl p, sp)
      | (Inr ip, sp) \<Rightarrow> (Inr \<lparr>ID = i, SourceIP = ip, stopChan = Open\<rparr>, sp))"

definition BrowserUser_Start :: "BrowserUser \<Rightarrow> TrafficGenerator \<Rightarrow> TrafficGenerator" where
  "BrowserUser_Start u g = g\<lparr>wg := wg g + 1, events := events g @ [Started (ID u)]\<rparr>"

definition BrowserUser_Stop :: "BrowserUser \<Rightarrow> go_panic + BrowserUser" where
  "BrowserUser_Stop u =
     (if stopChan u = Closed then Inl (Panic ''close of closed channel'')
      else Inr (u\<lparr>stopChan := Closed\<rparr>))"

definition Start :: "TrafficGenerator \<Rightarrow> error option \<times> TrafficGenerator" where
  "Start g =
     (if running g then (Some (Error ''traffic generator is already running''), g)
      else (None, g\<lparr>running := True, events := events g @ [ManagerStarted]\<rparr>))"

definition len_users :: "TrafficGenerator \<Rightarrow> go_int" where
  "len_users g = of_nat (Mapping.size (users g))"

text \<open>The loop \<open>for i := currentCount; i < targetCount; i++\<close> from index \<open>i\<close> on.\<close>

function add_loop :: "TrafficGenerator \<Rightarrow> go_int \<Rightarrow> go_int \<Rightarrow> go_panic + TrafficGenerator" where
  "add_loop g i targetCount =
     (if i <s targetCount then
        (case NewBrowserUser i (ipSpoofer g) of
           (Inl p, sp) \<Rightarrow> Inl p
         | (Inr user, sp) \<Rightarrow>
             add_loop
               (BrowserUser_Start user (g\<lparr>ipSpoofer := sp, users := Mapping.update i user (users g)\<rparr>))
               (i + 1) targetCount)
      else Inr g)"
  by pat_completeness auto
termination
proof (relation "measure (\<lambda>(g, i, targetCount). nat (sint targetCount - sint i))")
  show "wf (measure (\<lambda>(g, i, targetCount). nat (sint targetCount - sint i)))"
    by simp
next
  fix g :: TrafficGenerator and i targetCount :: go_int and x y z
  assume less: "i <s targetCount"
  have "sint targetCount < 2 ^ 63"
    using sint_lt [of targetCount] by simp
  with less have up: "sint i + 1 < 2 ^ 63"
    by (simp add: word_sless_alt)
  have low: "- (2 ^ 63) \<le> sint i + 1"
    using sint_ge [of i] by simp
  have "sint (i + 1) = signed_take_bit 63 (sint i + 1)"
    by (simp add: sint_word_ariths)
  also have "\<dots> = sint i + 1"
    using low up by (simp add: signed_take_bit_int_eq_self)
  finally have "sint (i + 1) = sint i + 1" .
  with less show
    "((BrowserUser_Start z (g\<lparr>ipSpoofer := y, users := Mapping.update i z (users g)\<rparr>),
        i + 1, targetCount), (g, i, targetCount))
      \<in> measure (\<lambda>(g, i, targetCount). nat (sint targetCount - sint i))"
    by (simp add: word_sless_alt)
qed

text \<open>
  The loop \<open>for i := currentCount - 1; i >= targetCount; i--\<close> from index \<open>i\<close> on.
  \<open>i--\<close> wraps around at the least \<open>int\<close>, so the loop need not end: \<open>None\<close> is the
  run that does not return.
\<close>

partial_function (option) remove_loop ::
  "TrafficGenerator \<Rightarrow> go_int \<Rightarrow> go_int \<Rightarrow> (go_panic + TrafficGenerator) option" where
  "remove_loop g i targetCount =
     (if targetCount \<le>s i then
        (case Mapping.lookup (users g) i of
           Some user \<Rightarrow>
             (case BrowserUser_Stop user of
                Inl p \<Rightarrow> Some (Inl p)
              | Inr stopped \<Rightarrow>
                  remove_loop
                    (g\<lparr>users := Mapping.delete i (users g),
                       events := events g @ [Cancelled i, Deleted i]\<rparr>)
                    (i - 1) targetCount)
         | None \<Rightarrow> remove_loop g (i - 1) targetCount)
      else Some (Inr g))"

definition adjustActiveUsers ::
  "TrafficGenerator \<Rightarrow> go_int \<Rightarrow> (go_panic + TrafficGenerator) option" where
  "adjustActiveUsers g targetCount =
     (let currentCount = len_users g in
      case (if currentCount <s targetCount then add_loop g currentCount targetCount else Inr g) of
        Inl p \<Rightarrow> Some (Inl p)
      | Inr g' \<Rightarrow>
          if targetCount <s currentCount then remove_loop g' (currentCount - 1) targetCount
          else Some (Inr g'))"

text \<open>
  \<open>manageUsers\<close>: the body of the \<open>ticker.C\<close> case, and the loop around the
  \<open>select\<close>. The configuration is shared with its writers, so each firing of the ticker
  comes with the settings in force at that moment. A closed stop channel is ready at
  once, so the loop returns at the \<open>select\<close> that finds it closed; with the channel open
  and no firing left to serve, the loop is waiting in its \<open>select\<close>.
\<close>

definition tick :: "TrafficGenerator \<Rightarrow> (go_panic + TrafficGenerator) option" where
  "tick g =
     (if \<not> IsEnabled (config g) then adjustActiveUsers g 0
      else adjustActiveUsers g (GetConcurrentUsers (config g)))"

datatype loop_status = Returned | Waiting

fun manageUsers ::
  "TrafficGenerator \<Rightarrow> Config list \<Rightarrow> (go_panic + loop_status \<times> TrafficGenerator) option" where
  "manageUsers g [] =
     (if gen_stopChan g = Closed then Some (Inr (Returned, g)) else Some (Inr (Waiting, g)))"
| "manageUsers g (cfg # rest) =
     (if gen_stopChan g = Closed then Some (Inr (Returned, g))
      else case tick (g\<lparr>config := cfg\<rparr>) of
             None \<Rightarrow> None
           | Some (Inl p) \<Rightarrow> Some (Inl p)
           | Some (Inr g') \<Rightarrow> manageUsers g' rest)"

text \<open>
  \<open>Stop\<close>, as one caller runs it: \<open>close(g.stopChan)\<close> panics on a closed channel; the
  loop \<open>for _, user := range g.users\<close> visits the handles in an order Go leaves open
  (here ascending) and leaves the sessions in the map; \<open>g.wg.Wait()\<close> returns when the
  counter is 0.
\<close>

fun stop_users :: "go_int list \<Rightarrow> TrafficGenerator \<Rightarrow> go_panic + TrafficGenerator" where
  "stop_users [] g = Inr g"
| "stop_users (k # ks) g =
     (case Mapping.lookup (users g) k of
        None \<Rightarrow> stop_users ks g
      | Some user \<Rightarrow>
          (case BrowserUser_Stop user of
             Inl p \<Rightarrow> Inl p
           | Inr stopped \<Rightarrow>
               stop_users ks
                 (g\<lparr>users := Mapping.update k stopped (users g),
                    events := events g @ [Cancelled k]\<rparr>)))"

definition Stop :: "TrafficGenerator \<Rightarrow> go_panic + TrafficGenerator" where
  "Stop g =
     (if \<not> running g then Inr g
      else if gen_stopChan g = Closed then Inl (Panic ''close of closed channel'')
      else case stop_users (Mapping.ordered_keys (users g)) (g\<lparr>gen_stopChan := Closed\<rparr>) of
             Inl p \<Rightarrow> Inl p
           | Inr g' \<Rightarrow> Inr (g'\<lparr>wg := 0, running := False\<rparr>))"

text \<open>
  Request counting. \<open>time.Since\<close> saturates at the bounds of \<open>Duration\<close>;
  \<open>Seconds\<close> and the rate are \<open>float64\<close> in Go and real numbers here.
  \<open>GetActualRequestsPerSecond\<close> reads the clock twice: for \<open>time.Since\<close> and, when it
  resets the window, for \<open>time.Now()\<close>.
\<close>

definition RecordRequest :: "TrafficGenerator \<Rightarrow> TrafficGenerator" where
  "RecordRequest g = g\<lparr>requestCount := requestCount g + 1\<rparr>"

definition Since :: "Time \<Rightarrow> Time \<Rightarrow> int" where
  "Since t now = max (- (2 ^ 63)) (min (2 ^ 63 - 1) (now - t))"

definition Seconds :: "int \<Rightarrow> real" where
  "Seconds d = real_of_int d / 1000000000"

definition GetActualRequestsPerSecond ::
  "TrafficGenerator \<Rightarrow> Time \<Rightarrow> Time \<Rightarrow> real \<times> TrafficGenerator" where
  "GetActualRequestsPerSecond g now now' =
     (let elapsed = Seconds (Since (requestsStart g) now) in
      if elapsed < 1 then (0, g)
      else
        (let rps = real_of_int (sint (requestCount g)) / elapsed in
         if elapsed > 60 then (rps, g\<lparr>requestCount := 0, requestsStart := now'\<rparr>)
         else (rps, g)))"


section \<open>Reachable states of the generator\<close>

text \<open>
  The range is \<open>full\<close> when \<open>endInt - startInt + 1\<close> wraps around to 0, which happens
  for 0.0.0.0 to 255.255.255.255 only.
\<close>

definition full_range :: "IPSpoofer \<Rightarrow> bool" where
  "full_range s \<longleftrightarrow> ipToUint32 (endIP s) - ipToUint32 (startIP s) + 1 = 0"

text \<open>
  A spoofer as the constructor leaves it, with a range that is not the full one; the
  address it draws next, and the spoofer after the draw.
\<close>

definition spoofer_ok :: "IPSpoofer \<Rightarrow> bool" where
  "spoofer_ok sp \<longleftrightarrow> ipToUint32 (startIP sp) \<le> ipToUint32 (endIP sp) \<and> \<not> full_range sp"

definition drawn_IP :: "IPSpoofer \<Rightarrow> string" where
  "drawn_IP sp =
     IP_String (uint32ToIP (ipToUint32 (startIP sp)
       + word_of_int (int (stream (sp_rand sp) (used (sp_rand sp)))
           mod uint (ipToUint32 (endIP sp) - ipToUint32 (startIP sp) + 1))))"

definition advance :: "IPSpoofer \<Rightarrow> IPSpoofer" where
  "advance sp = sp\<lparr>sp_rand := (sp_rand sp)\<lparr>used := Suc (used (sp_rand sp))\<rparr>\<rparr>"

text \<open>The handles \<open>0, \<dots>, n - 1\<close> as 64-bit integers.\<close>

definition handles :: "nat \<Rightarrow> go_int set" where
  "handles n = {k. 0 \<le> sint k \<and> sint k < int n}"

text \<open>
  The live map as every completed step leaves it: the handles are \<open>0, \<dots>, n - 1\<close>, and
  no session in the map has been cancelled.
\<close>

definition all_open :: "TrafficGenerator \<Rightarrow> bool" where
  "all_open g \<longleftrightarrow> (\<forall>k u. Mapping.lookup (users g) k = Some u \<longrightarrow> stopChan u = Open)"

definition live_ok :: "TrafficGenerator \<Rightarrow> bool" where
  "live_ok g \<longleftrightarrow> (\<exists>n. n < 2 ^ 63 \<and> Mapping.keys (users g) = handles n) \<and> all_open g"

text \<open>The generator after a step that has returned without a panic.\<close>

definition after_adjust :: "TrafficGenerator \<Rightarrow> go_int \<Rightarrow> TrafficGenerator" where
  "after_adjust g t = (case adjustActiveUsers g t of Some (Inr g') \<Rightarrow> g' | _ \<Rightarrow> g)"


section \<open>Values for the examples\<close>

definition example_net :: "int \<Rightarrow> Net" where
  "example_net code =
     \<lparr>NewRequest = (\<lambda>url. if url = [] then Inl (Error ''empty url'')
                           else Inr \<lparr>URL = url, Header = []\<rparr>),
      Do = (\<lambda>c req. if code = 0 then Inl (Error ''connection refused'')
                     else Inr \<lparr>StatusCode = code, Status = ''status''\<rparr>)\<rparr>"

text \<open>A stand-in for \<open>net.ParseIP(s).To4()\<close> on the addresses used in the examples.\<close>

definition example_ParseIP_To4 :: "string \<Rightarrow> IPv4 option" where
  "example_ParseIP_To4 s =
     (if s = ''0.0.0.0'' then Some (0, 0, 0, 0)
      else if s = ''255.255.255.255'' then Some (255, 255, 255, 255)
      else if s = ''192.168.1.1'' then Some (192, 168, 1, 1)
      else if s = ''192.168.1.254'' then Some (192, 168, 1, 254)
      else None)"

definition example_config :: Config where
  "example_config =
     \<lparr>ConcurrentUsers = 10, RequestsPerSecond = 50, URLFilePath = ''urls/urls.txt'',
      IPRangeStart = ''192.168.1.1'', IPRangeEnd = ''192.168.1.254'', Enabled = True\<rparr>"

definition example_generator :: TrafficGenerator where
  "example_generator =
     \<lparr>config = example_config,
      urlManager = \<lparr>urls = [''https://a.test''], um_rand = \<lparr>stream = (\<lambda>n. n), used = 0\<rparr>\<rparr>,
      ipSpoofer = \<lparr>startIP = (192, 168, 1, 1), endIP = (192, 168, 1, 254),
                   sp_rand = \<lparr>stream = (\<lambda>n. 1000 * n + 7), used = 0\<rparr>\<rparr>,
      users = Mapping.empty, wg = 0, running = False, gen_stopChan = Open,
      requestCount = 0, requestsStart = 0, events = []\<rparr>"

text \<open>Three live sessions, with traffic disabled and ten users configured.\<close>

definition example_three :: TrafficGenerator where
  "example_three =
     example_generator
       \<lparr>config := example_config\<lparr>Enabled := False\<rparr>,
        users :=
          Mapping.update 2 \<lparr>ID = 2, SourceIP = ''192.168.1.30'', stopChan = Open\<rparr>
            (Mapping.update 1 \<lparr>ID = 1, SourceIP = ''192.168.1.20'', stopChan = Open\<rparr>
              (Mapping.update 0 \<lparr>ID = 0, SourceIP = ''192.168.1.10'', stopChan = Open\<rparr>
                Mapping.empty)),
        wg := 3,
        events := [Started 0, Started 1, Started 2]\<rparr>"


section \<open>URLManager: loading and drawing\<close>

lemma scan_loop_filter: "scan_loop us ls = us @ filter (\<lambda>url. url \<noteq> '''') ls"
  by (induction ls arbitrary: us) auto

text \<open>
  C10. A successful \<open>LoadFromFile\<close> replaces the corpus by the non-empty lines of the
  file in file order, and \<open>Count\<close> then is their number; when \<open>os.Open\<close> fails or the
  scanner ends with an error, that error is returned and the manager is unchanged.
\<close>

theorem LoadFromFile_spec:
  "(fs p = Inr f \<and> scan_err f = None \<longrightarrow>
      fst (LoadFromFile m fs p) = None
      \<and> urls (snd (LoadFromFile m fs p)) = filter (\<lambda>url. url \<noteq> '''') (scan_lines f)
      \<and> Count (snd (LoadFromFile m fs p)) = int (length (filter (\<lambda>url. url \<noteq> '''') (scan_lines f))))
   \<and> (fs p = Inl e \<longrightarrow> LoadFromFile m fs p = (Some e, m))
   \<and> (fs p = Inr f \<and> scan_err f = Some e \<longrightarrow> LoadFromFile m fs p = (Some e, m))"
  by (simp add: LoadFromFile_def Count_def scan_loop_filter)

theorem LoadFromFile_spec_witness:
  "fst (LoadFromFile \<lparr>urls = [''old''], um_rand = \<lparr>stream = (\<lambda>n. n), used = 0\<rparr>\<rparr>
          (\<lambda>p. Inr \<lparr>scan_lines = [''a'', '''', ''b''], scan_err = None\<rparr>) ''f'') = None
   \<and> urls (snd (LoadFromFile \<lparr>urls = [''old''], um_rand = \<lparr>stream = (\<lambda>n. n), used = 0\<rparr>\<rparr>
          (\<lambda>p. Inr \<lparr>scan_lines = [''a'', '''', ''b''], scan_err = None\<rparr>) ''f'')) = [''a'', ''b'']
   \<and> LoadFromFile \<lparr>urls = [''old''], um_rand = \<lparr>stream = (\<lambda>n. n), used = 0\<rparr>\<rparr>
          (\<lambda>p. Inl (Error ''no such file'')) ''f''
       = (Some (Error ''no such file''), \<lparr>urls = [''old''], um_rand = \<lparr>stream = (\<lambda>n. n), used = 0\<rparr>\<rparr>)
   \<and> LoadFromFile \<lparr>urls = [''old''], um_rand = \<lparr>stream = (\<lambda>n. n), used = 0\<rparr>\<rparr>
          (\<lambda>p. Inr \<lparr>scan_lines = [''a''], scan_err = Some (Error ''token too long'')\<rparr>) ''f''
       = (Some (Error ''token too long''), \<lparr>urls = [''old''], um_rand = \<lparr>stream = (\<lambda>n. n), used = 0\<rparr>\<rparr>)"
  using
    LoadFromFile_spec [of "\<lambda>p. Inr \<lparr>scan_lines = [''a'', '''', ''b''], scan_err = None\<rparr>" "''f''"
      "\<lparr>scan_lines = [''a'', '''', ''b''], scan_err = None\<rparr>"
      "\<lparr>urls = [''old''], um_rand = \<lparr>stream = (\<lambda>n. n), used = 0\<rparr>\<rparr>" "Error ''x''"]
    LoadFromFile_spec [of "\<lambda>p. Inl (Error ''no such file'')" "''f''"
      "\<lparr>scan_lines = [], scan_err = None\<rparr>"
      "\<lparr>urls = [''old''], um_rand = \<lparr>stream = (\<lambda>n. n), used = 0\<rparr>\<rparr>" "Error ''no such file''"]
    LoadFromFile_spec [of "\<lambda>p. Inr \<lparr>scan_lines = [''a''], scan_err = Some (Error ''token too long'')\<rparr>" "''f''"
      "\<lparr>scan_lines = [''a''], scan_err = Some (Error ''token too long'')\<rparr>"
      "\<lparr>urls = [''old''], um_rand = \<lparr>stream = (\<lambda>n. n), used = 0\<rparr>\<rparr>" "Error ''token too long''"]
  by simp

text \<open>
  C7. On an empty corpus \<open>GetRandomURL\<close> returns the fallback
  \<open>https://example.com\<close>; on a non-empty corpus it returns a member of the loaded list;
  in both cases it returns a string and does not panic.
\<close>

theorem GetRandomURL_spec:
  "(urls m = [] \<longrightarrow> fst (GetRandomURL m) = Inr ''https://example.com'')
   \<and> (urls m \<noteq> [] \<longrightarrow> (\<exists>u \<in> set (urls m). fst (GetRandomURL m) = Inr u))
   \<and> (\<exists>s. fst (GetRandomURL m) = Inr s)"
proof -
  have nonempty: "\<exists>u \<in> set (urls m). fst (GetRandomURL m) = Inr u" if ne: "urls m \<noteq> []"
  proof -
    let ?n = "int (length (urls m))"
    let ?i = "int (stream (um_rand m) (used (um_rand m))) mod ?n"
    from ne have pos: "0 < ?n" by simp
    then have range: "0 \<le> ?i" "?i < ?n" by simp_all
    then have "nat ?i < length (urls m)" by linarith
    then have mem: "urls m ! nat ?i \<in> set (urls m)" by (rule nth_mem)
    from ne pos range have "fst (GetRandomURL m) = Inr (urls m ! nat ?i)"
      by (simp add: GetRandomURL_def Intn_def index_def)
    with mem show ?thesis by blast
  qed
  have empty: "fst (GetRandomURL m) = Inr ''https://example.com''" if "urls m = []"
    using that by (simp add: GetRandomURL_def)
  from nonempty empty show ?thesis by (cases "urls m = []") auto
qed

theorem GetRandomURL_spec_witness:
  "fst (GetRandomURL \<lparr>urls = [], um_rand = \<lparr>stream = (\<lambda>n. 7), used = 0\<rparr>\<rparr>) = Inr ''https://example.com''
   \<and> (\<exists>u \<in> set [''https://a.test'', ''https://b.test''].
        fst (GetRandomURL \<lparr>urls = [''https://a.test'', ''https://b.test''],
                           um_rand = \<lparr>stream = (\<lambda>n. 7), used = 0\<rparr>\<rparr>) = Inr u)"
  using GetRandomURL_spec [of "\<lparr>urls = [], um_rand = \<lparr>stream = (\<lambda>n. 7), used = 0\<rparr>\<rparr>"]
    GetRandomURL_spec [of "\<lparr>urls = [''https://a.test'', ''https://b.test''],
                            um_rand = \<lparr>stream = (\<lambda>n. 7), used = 0\<rparr>\<rparr>"]
  by simp


section \<open>HTTPClient: outcome of a request\<close>

text \<open>
  C9. \<open>Get\<close> returns nil exactly when \<open>http.NewRequest\<close> yields a request and
  \<open>client.Do\<close> yields a response, whatever the response's status code; the client built
  by \<open>NewHTTPClient\<close> answers every redirect check with \<open>ErrUseLastResponse\<close>, so a
  redirect response is not followed; the callback is applied once when \<open>Get\<close> returns nil
  and not at all when it returns an error.
\<close>

theorem Get_spec:
  "(fst (Get c net url s) = None
      \<longleftrightarrow> (\<exists>req resp. NewRequest net url = Inr req
                      \<and> Do net (client c) (set_headers c req) = Inr resp))
   \<and> snd (Get c net url s) =
       (if fst (Get c net url s) = None
        then (case requestCallback c of None \<Rightarrow> s | Some callback \<Rightarrow> callback s)
        else s)
   \<and> CheckRedirect (client (NewHTTPClient cb)) r via = Some ErrUseLastResponse
   \<and> requestCallback (NewHTTPClient cb) = cb"
  by (auto simp add: Get_def NewHTTPClient_def split: sum.splits)

theorem Get_spec_witness:
  "Get (NewHTTPClient (Some Suc)) (example_net 302) ''https://a.test'' (0::nat) = (None, 1)
   \<and> Get (NewHTTPClient (Some Suc)) (example_net 500) ''https://a.test'' (0::nat) = (None, 1)
   \<and> fst (Get (NewHTTPClient (Some Suc)) (example_net 0) ''https://a.test'' (0::nat)) \<noteq> None
   \<and> snd (Get (NewHTTPClient (Some Suc)) (example_net 0) ''https://a.test'' (0::nat)) = 0
   \<and> fst (Get (NewHTTPClient (Some Suc)) (example_net 200) [] (0::nat)) \<noteq> None
   \<and> snd (Get (NewHTTPClient (Some Suc)) (example_net 200) [] (0::nat)) = 0"
  using Get_spec [of "NewHTTPClient (Some Suc)" "example_net 302" "''https://a.test''" "0::nat" "Some Suc"]
    Get_spec [of "NewHTTPClient (Some Suc)" "example_net 500" "''https://a.test''" "0::nat" "Some Suc"]
    Get_spec [of "NewHTTPClient (Some Suc)" "example_net 0" "''https://a.test''" "0::nat" "Some Suc"]
    Get_spec [of "NewHTTPClient (Some Suc)" "example_net 200" "[]" "0::nat" "Some Suc"]
  by (simp add: example_net_def prod_eq_iff)


section \<open>TrafficGenerator: starting\<close>

text \<open>
  \<open>Start\<close> on a running generator returns the error and leaves the generator as it
  was; on an idle one it returns nil, sets \<open>running\<close> and launches \<open>manageUsers\<close>.
\<close>

lemma Start_running:
  "running g \<Longrightarrow> Start g = (Some (Error ''traffic generator is already running''), g)"
  by (simp add: Start_def)

lemma Start_idle:
  "\<not> running g \<Longrightarrow>
     Start g = (None, g\<lparr>running := True, events := events g @ [ManagerStarted]\<rparr>)"
  by (simp add: Start_def)

text \<open>
  On a generator whose stop channel is open, the loop launched by the first \<open>Start\<close> is
  waiting in its \<open>select\<close>, and a second \<open>Start\<close> is refused and launches nothing.
\<close>

lemma Start_twice_open:
  assumes "\<not> running g" and "gen_stopChan g = Open"
  shows "fst (Start g) = None"
    and "Start (snd (Start g)) = (Some (Error ''traffic generator is already running''), snd (Start g))"
    and "manageUsers (snd (Start g)) [] = Some (Inr (Waiting, snd (Start g)))"
    and "count_list (events (snd (Start g))) ManagerStarted = count_list (events g) ManagerStarted + 1"
  using assms by (simp_all add: Start_def)

lemma manageUsers_closed:
  "gen_stopChan g = Closed \<Longrightarrow> manageUsers g ticks = Some (Inr (Returned, g))"
  by (cases ticks) simp_all

text \<open>
  C5. An idle generator with an open stop channel and no sessions is started, stopped and
  started again. Each call succeeds, and a further \<open>Start\<close> is refused with "traffic
  generator is already running" and changes nothing. But \<open>Stop\<close> has closed the stop channel
  and nothing makes a new one: the loop launched by the second successful \<open>Start\<close> returns
  at its first \<open>select\<close>, whatever the ticker would deliver, so no reconciliation loop is
  active while the generator reports that it is running; a \<open>Stop\<close> in that state panics
  on closing the closed channel.
\<close>

theorem Start_after_Stop_no_loop:
  fixes g :: TrafficGenerator
  defines "g0 \<equiv> g\<lparr>users := Mapping.empty, running := False, gen_stopChan := Open\<rparr>"
  defines "g1 \<equiv> g0\<lparr>running := True, events := events g @ [ManagerStarted]\<rparr>"
  defines "g2 \<equiv> g1\<lparr>gen_stopChan := Closed, wg := 0, running := False\<rparr>"
  defines "g3 \<equiv> g2\<lparr>running := True, events := events g @ [ManagerStarted, ManagerStarted]\<rparr>"
  shows "Start g0 = (None, g1)
    \<and> manageUsers g1 [] = Some (Inr (Waiting, g1))
    \<and> Stop g1 = Inr g2
    \<and> Start g2 = (None, g3)
    \<and> Start g3 = (Some (Error ''traffic generator is already running''), g3)
    \<and> manageUsers g3 ticks = Some (Inr (Returned, g3))
    \<and> Stop g3 = Inl (Panic ''close of closed channel'')"
  unfolding g3_def g2_def g1_def g0_def
  by (simp add: Start_def Stop_def manageUsers_closed)


section \<open>TrafficGenerator: the measured request rate\<close>

text \<open>
  C4. With \<open>elapsed\<close> the seconds since the window start: for \<open>elapsed < 1\<close> the
  result is 0 and nothing changes; otherwise the result is the request count divided by
  \<open>elapsed\<close>; for \<open>elapsed > 60\<close> the same call also sets the count to 0 and the window
  start to the current time, the result being the rate before the reset; between 1 and 60
  seconds nothing changes.
\<close>

theorem GetActualRequestsPerSecond_spec:
  fixes g now now'
  defines "elapsed \<equiv> Seconds (Since (requestsStart g) now)"
  shows
  "(elapsed < 1 \<longrightarrow> GetActualRequestsPerSecond g now now' = (0, g))
   \<and> (1 \<le> elapsed \<longrightarrow>
        fst (GetActualRequestsPerSecond g now now') = real_of_int (sint (requestCount g)) / elapsed)
   \<and> (60 < elapsed \<longrightarrow>
        snd (GetActualRequestsPerSecond g now now') = g\<lparr>requestCount := 0, requestsStart := now'\<rparr>)
   \<and> (1 \<le> elapsed \<and> elapsed \<le> 60 \<longrightarrow> snd (GetActualRequestsPerSecond g now now') = g)"
  by (simp add: GetActualRequestsPerSecond_def elapsed_def Let_def)

theorem GetActualRequestsPerSecond_spec_witness:
  "GetActualRequestsPerSecond (example_generator\<lparr>requestCount := 30\<rparr>) 500000000 500000001
     = (0, example_generator\<lparr>requestCount := 30\<rparr>)
   \<and> GetActualRequestsPerSecond (example_generator\<lparr>requestCount := 30\<rparr>) 10000000000 10000000001
     = (3, example_generator\<lparr>requestCount := 30\<rparr>)
   \<and> GetActualRequestsPerSecond (example_generator\<lparr>requestCount := 240\<rparr>) 120000000000 120000000001
     = (2, example_generator\<lparr>requestCount := 0, requestsStart := 120000000001\<rparr>)"
  using
    GetActualRequestsPerSecond_spec [of "example_generator\<lparr>requestCount := 30\<rparr>" 500000000 500000001]
    GetActualRequestsPerSecond_spec [of "example_generator\<lparr>requestCount := 30\<rparr>" 10000000000 10000000001]
    GetActualRequestsPerSecond_spec [of "example_generator\<lparr>requestCount := 240\<rparr>" 120000000000 120000000001]
  by (simp add: example_generator_def Seconds_def Since_def prod_eq_iff)


section \<open>IPSpoofer: the address drawn\<close>

lemma uint_byte_less: "uint (a::byte) < 256"
  using uint_lt2p [of a] by simp

lemma uint_ucast_byte: "uint (ucast (a::byte) :: uint32) = uint a"
  using uint_byte_less [of a] by (simp add: unsigned_ucast_eq take_bit_int_eq_self)

lemma uint_push_bit_byte:
  assumes k: "k \<le> 24"
  shows "uint (push_bit k (ucast (a::byte)) :: uint32) = uint a * 2 ^ k"
proof -
  have "uint a * 2 ^ k < 256 * 2 ^ k"
    using uint_byte_less [of a] by simp
  also have "\<dots> = (2::int) ^ (8 + k)"
    by (simp add: power_add)
  also have "\<dots> \<le> 2 ^ 32"
    using k by (intro power_increasing) simp_all
  finally have "uint a * 2 ^ k < 2 ^ 32" .
  then show ?thesis
    by (subst unsigned_push_bit_eq) (simp add: uint_ucast_byte push_bit_eq_mult take_bit_int_eq_self)
qed

text \<open>The four shifted bytes occupy disjoint bits, so the \<open>OR\<close> of them is their sum.\<close>

lemma ipToUint32_sum:
  "ipToUint32 (a, b, c, d) =
     push_bit 24 (ucast a) + (push_bit 16 (ucast b) + (push_bit 8 (ucast c) + ucast d))"
proof -
  let ?A = "push_bit 24 (ucast a) :: uint32" and ?B = "push_bit 16 (ucast b) :: uint32"
  and ?C = "push_bit 8 (ucast c) :: uint32" and ?D = "ucast d :: uint32"
  have cd: "?C + ?D = ?C OR ?D"
  proof (rule disjunctive_add_eq_or, rule bit_word_eqI)
    fix n show "bit (?C AND ?D) n = bit (0 :: uint32) n"
      by (auto simp add: bit_simps dest: bit_imp_le_length)
  qed
  have bcd: "?B + (?C OR ?D) = ?B OR (?C OR ?D)"
  proof (rule disjunctive_add_eq_or, rule bit_word_eqI)
    fix n show "bit (?B AND (?C OR ?D)) n = bit (0 :: uint32) n"
      by (auto simp add: bit_simps dest: bit_imp_le_length)
  qed
  have abcd: "?A + (?B OR (?C OR ?D)) = ?A OR (?B OR (?C OR ?D))"
  proof (rule disjunctive_add_eq_or, rule bit_word_eqI)
    fix n show "bit (?A AND (?B OR (?C OR ?D))) n = bit (0 :: uint32) n"
      by (auto simp add: bit_simps dest: bit_imp_le_length)
  qed
  show ?thesis
    by (simp only: ipToUint32_def prod.case cd bcd abcd)
qed

lemma uint_ipToUint32:
  "uint (ipToUint32 (a, b, c, d)) = uint a * 16777216 + uint b * 65536 + uint c * 256 + uint d"
proof -
  have less: "uint a * 16777216 + uint b * 65536 + uint c * 256 + uint d < 4294967296"
    using uint_byte_less [of a] uint_byte_less [of b] uint_byte_less [of c] uint_byte_less [of d]
    by simp
  have nonneg: "0 \<le> uint a" "0 \<le> uint b" "0 \<le> uint c" "0 \<le> uint d"
    by simp_all
  have "uint (ipToUint32 (a, b, c, d))
          = (uint a * 16777216 + uint b * 65536 + uint c * 256 + uint d) mod 4294967296"
    using uint_push_bit_byte [of 24 a] uint_push_bit_byte [of 16 b] uint_push_bit_byte [of 8 c]
    by (simp add: ipToUint32_sum uint_word_ariths uint_ucast_byte mod_simps ac_simps)
  also have "\<dots> = uint a * 16777216 + uint b * 65536 + uint c * 256 + uint d"
    using less nonneg by (intro mod_pos_pos_trivial) simp_all
  finally show ?thesis .
qed

text \<open>The byte-wise comparison of the constructor is the comparison of the 32-bit values.\<close>

lemma start_after_end_iff:
  "start_after_end (zip (octets s) (octets e)) \<longleftrightarrow> ipToUint32 e < ipToUint32 s"
proof -
  obtain a b c d where s: "s = (a, b, c, d)" by (cases s) auto
  obtain a' b' c' d' where e: "e = (a', b', c', d')" by (cases e) auto
  have bounds:
    "uint a < 256" "uint b < 256" "uint c < 256" "uint d < 256"
    "uint a' < 256" "uint b' < 256" "uint c' < 256" "uint d' < 256"
    "0 \<le> uint a" "0 \<le> uint b" "0 \<le> uint c" "0 \<le> uint d"
    "0 \<le> uint a'" "0 \<le> uint b'" "0 \<le> uint c'" "0 \<le> uint d'"
    by (simp_all add: uint_byte_less)
  have "start_after_end (zip (octets s) (octets e)) \<longleftrightarrow>
     (uint a > uint a' \<or> (uint a = uint a' \<and> (uint b > uint b' \<or> (uint b = uint b' \<and>
       (uint c > uint c' \<or> (uint c = uint c' \<and> uint d > uint d'))))))"
    unfolding s e octets_def by (auto simp add: word_less_def word_uint_eq_iff)
  also have "\<dots> \<longleftrightarrow> uint a' * 16777216 + uint b' * 65536 + uint c' * 256 + uint d'
        < uint a * 16777216 + uint b * 65536 + uint c * 256 + uint d"
    using bounds by linarith
  finally show ?thesis
    unfolding s e by (simp add: word_less_def uint_ipToUint32)
qed

lemma ipToUint32_uint32ToIP: "ipToUint32 (uint32ToIP x) = x"
  unfolding ipToUint32_def uint32ToIP_def prod.case
proof (rule bit_word_eqI)
  fix n
  assume "n < LENGTH(32)"
  then show "bit (push_bit 24 (ucast (ucast (drop_bit 24 x) :: byte))
           OR push_bit 16 (ucast (ucast (drop_bit 16 x) :: byte))
           OR push_bit 8 (ucast (ucast (drop_bit 8 x) :: byte))
           OR ucast (ucast x :: byte) :: uint32) n = bit x n"
    by (cases "n < 8"; cases "n < 16"; cases "n < 24") (auto simp add: bit_simps)
qed

lemma full_range_iff:
  assumes "ipToUint32 (startIP s) \<le> ipToUint32 (endIP s)"
  shows "full_range s \<longleftrightarrow> startIP s = (0, 0, 0, 0) \<and> endIP s = (255, 255, 255, 255)"
proof -
  let ?S = "ipToUint32 (startIP s)" and ?E = "ipToUint32 (endIP s)"
  have inj: "ipToUint32 p = ipToUint32 q \<Longrightarrow> p = q" for p q
  proof -
    assume pq: "ipToUint32 p = ipToUint32 q"
    obtain a b c d where p: "p = (a, b, c, d)" by (cases p) auto
    obtain a' b' c' d' where q: "q = (a', b', c', d')" by (cases q) auto
    from pq have "\<not> start_after_end (zip (octets p) (octets q))"
      and "\<not> start_after_end (zip (octets q) (octets p))"
      by (simp_all add: start_after_end_iff)
    then show "p = q"
      unfolding p q octets_def by (auto split: if_splits)
  qed
  have zero: "ipToUint32 (0, 0, 0, 0) = 0" and top: "ipToUint32 (255, 255, 255, 255) = - 1"
    by (simp_all add: ipToUint32_def)
  have m1: "uint (- 1 :: uint32) = 4294967295"
    by (simp add: unsigned_minus_1_eq_mask mask_eq_exp_minus_1)
  have E: "uint ?E < 4294967296"
    using uint_lt2p [of ?E] by simp
  have S: "0 \<le> uint ?S"
    by simp
  have "full_range s \<longleftrightarrow> ?E - ?S = - 1"
    unfolding full_range_def by (metis add.commute add_eq_0_iff)
  also have "\<dots> \<longleftrightarrow> uint ?E - uint ?S = 4294967295"
    using assms by (simp add: word_uint_eq_iff uint_sub_lem [THEN iffD1] word_le_def m1)
  also have "\<dots> \<longleftrightarrow> uint ?S = 0 \<and> uint ?E = 4294967295"
    using E S by linarith
  also have "\<dots> \<longleftrightarrow> ?S = ipToUint32 (0, 0, 0, 0) \<and> ?E = ipToUint32 (255, 255, 255, 255)"
    by (simp add: zero top word_uint_eq_iff m1)
  also have "\<dots> \<longleftrightarrow> startIP s = (0, 0, 0, 0) \<and> endIP s = (255, 255, 255, 255)"
    using inj [of "startIP s" "(0, 0, 0, 0)"] inj [of "endIP s" "(255, 255, 255, 255)"] by auto
  finally show ?thesis .
qed

lemma randomInt_in_range:
  assumes le: "ipToUint32 (startIP s) \<le> ipToUint32 (endIP s)" and nf: "\<not> full_range s"
  shows "\<exists>x r. randomInt s = Inr (x, r) \<and> ipToUint32 (startIP s) \<le> x \<and> x \<le> ipToUint32 (endIP s)
            \<and> r = (sp_rand s)\<lparr>used := Suc (used (sp_rand s))\<rparr>"
proof -
  let ?S = "ipToUint32 (startIP s)" and ?E = "ipToUint32 (endIP s)"
  let ?n = "uint (?E - ?S + 1)"
  let ?k = "int (stream (sp_rand s) (used (sp_rand s))) mod ?n"
  from nf have "?n \<noteq> 0"
    by (simp add: full_range_def word_uint_eq_iff)
  then have pos: "0 < ?n"
    using uint_ge_0 [of "?E - ?S + 1"] by linarith
  have E: "uint ?E < 4294967296"
    using uint_lt2p [of ?E] by simp
  have S: "0 \<le> uint ?S"
    by simp
  have SE: "uint ?S \<le> uint ?E"
    using le by (simp add: word_le_def)
  have "?n = (uint ?E - uint ?S + 1) mod 4294967296"
    by (simp add: uint_word_ariths mod_simps)
  moreover have "uint ?E - uint ?S + 1 \<noteq> 4294967296 \<Longrightarrow>
      (uint ?E - uint ?S + 1) mod 4294967296 = uint ?E - uint ?S + 1"
    using E S SE by (intro mod_pos_pos_trivial) linarith+
  ultimately have n: "?n = uint ?E - uint ?S + 1"
    using pos by (cases "uint ?E - uint ?S + 1 = 4294967296") simp_all
  from pos have k: "0 \<le> ?k" "?k < ?n"
    by simp_all
  have k32: "?k < 4294967296"
    using k n E S by linarith
  have kk: "uint (word_of_int ?k :: uint32) = ?k"
    using k(1) k32 by (simp add: uint_word_of_int take_bit_int_eq_self)
  have "uint ?S + uint (word_of_int ?k :: uint32) < 2 ^ LENGTH(32)"
    using k n E kk by simp
  then have sum: "uint (?S + word_of_int ?k) = uint ?S + ?k"
    using kk by (simp add: uint_add_lem [THEN iffD1])
  have "randomInt s = Inr (?S + word_of_int ?k, (sp_rand s)\<lparr>used := Suc (used (sp_rand s))\<rparr>)"
    using pos by (simp add: randomInt_def Int63n_def Let_def)
  moreover have "?S \<le> ?S + word_of_int ?k" "?S + word_of_int ?k \<le> ?E"
    using k n sum by (simp_all add: word_le_def)
  ultimately show ?thesis by blast
qed


section \<open>Signed 64-bit arithmetic of the loop counters\<close>

lemma sint_succ:
  fixes i t :: go_int
  assumes "i <s t"
  shows "sint (i + 1) = sint i + 1"
proof -
  have "sint t < 2 ^ 63"
    using sint_lt [of t] by simp
  with assms have up: "sint i + 1 < 2 ^ 63"
    by (simp add: word_sless_alt)
  have low: "- (2 ^ 63) \<le> sint i + 1"
    using sint_ge [of i] by simp
  have "sint (i + 1) = signed_take_bit 63 (sint i + 1)"
    by (simp add: sint_word_ariths)
  also have "\<dots> = sint i + 1"
    using low up by (simp add: signed_take_bit_int_eq_self)
  finally show ?thesis .
qed

lemma sint_pred:
  fixes i :: go_int
  assumes "sint i \<noteq> - (2 ^ 63)"
  shows "sint (i - 1) = sint i - 1"
proof -
  have "- (2 ^ 63) \<le> sint i"
    using sint_ge [of i] by simp
  with assms have low: "- (2 ^ 63) \<le> sint i - 1"
    by simp
  have up: "sint i - 1 < 2 ^ 63"
    using sint_lt [of i] by simp
  have "sint (i - 1) = signed_take_bit 63 (sint i - 1)"
    by (simp add: sint_word_ariths)
  also have "\<dots> = sint i - 1"
    using low up by (simp add: signed_take_bit_int_eq_self)
  finally show ?thesis .
qed

lemma sint_of_nat:
  assumes "n < 2 ^ 63"
  shows "sint (of_nat n :: go_int) = int n"
proof -
  have "sint (of_nat n :: go_int) = signed_take_bit 63 (int n)"
    by (simp add: signed_of_nat)
  also have "\<dots> = int n"
    using assms by (intro signed_take_bit_int_eq_self) simp_all
  finally show ?thesis .
qed

lemma sint_min_int: "sint (- 9223372036854775808 :: go_int) = - 9223372036854775808"
  by simp

lemma handles_0: "handles 0 = {}"
  by (auto simp add: handles_def)

lemma handles_Suc:
  assumes "0 \<le> sint i"
  shows "insert i (handles (nat (sint i))) = handles (Suc (nat (sint i)))"
proof -
  have "sint x < 1 + sint i \<Longrightarrow> x \<noteq> i \<Longrightarrow> sint x < sint i" for x :: go_int
    using signed_word_eqI [of x i] by (cases "sint x = sint i") auto
  with assms show ?thesis
    by (auto simp add: handles_def)
qed

lemma card_handles:
  assumes "n \<le> 2 ^ 63"
  shows "card (handles n) = n"
proof -
  have "sint ` handles n = {0..<int n}"
  proof (rule set_eqI)
    fix x
    show "x \<in> sint ` handles n \<longleftrightarrow> x \<in> {0..<int n}"
    proof
      assume "x \<in> sint ` handles n"
      then show "x \<in> {0..<int n}" by (auto simp add: handles_def)
    next
      assume x: "x \<in> {0..<int n}"
      then have "nat x < 2 ^ 63" using assms by auto
      then have "sint (of_nat (nat x) :: go_int) = int (nat x)" by (rule sint_of_nat)
      with x have "sint (of_nat (nat x) :: go_int) = x" by simp
      with x have "of_nat (nat x) \<in> handles n" by (simp add: handles_def)
      then show "x \<in> sint ` handles n"
        using \<open>sint (of_nat (nat x) :: go_int) = x\<close> by (metis imageI)
    qed
  qed
  moreover have "inj_on (sint :: go_int \<Rightarrow> int) (handles n)"
    by (auto intro: inj_onI signed_word_eqI)
  ultimately have "card (handles n) = card {0..<int n}"
    by (metis card_image)
  then show ?thesis by simp
qed

lemma finite_handles: "finite (handles n)"
  by simp


section \<open>TrafficGenerator: adding and removing sessions\<close>

lemma spoofer_ok_advance [simp]: "spoofer_ok (advance sp) = spoofer_ok sp"
  by (simp add: spoofer_ok_def advance_def full_range_def)

lemma GetRandomIP_ok:
  assumes "spoofer_ok sp"
  shows "GetRandomIP sp = (Inr (drawn_IP sp), advance sp)"
proof -
  from assms have "uint (ipToUint32 (endIP sp) - ipToUint32 (startIP sp) + 1) \<noteq> 0"
    by (simp add: spoofer_ok_def full_range_def word_uint_eq_iff)
  then have "0 < uint (ipToUint32 (endIP sp) - ipToUint32 (startIP sp) + 1)"
    using uint_ge_0 [of "ipToUint32 (endIP sp) - ipToUint32 (startIP sp) + 1"] by linarith
  then show ?thesis
    by (simp add: GetRandomIP_def randomInt_def Int63n_def Let_def drawn_IP_def advance_def)
qed

lemma NewBrowserUser_ok:
  assumes "spoofer_ok sp"
  shows "NewBrowserUser i sp = (Inr \<lparr>ID = i, SourceIP = drawn_IP sp, stopChan = Open\<rparr>, advance sp)"
  using assms by (simp add: NewBrowserUser_def GetRandomIP_ok)

declare add_loop.simps [simp del]

lemma add_loop_spec:
  assumes "spoofer_ok (ipSpoofer g)"
  shows "\<exists>g'. add_loop g i t = Inr g'
     \<and> Mapping.keys (users g') = Mapping.keys (users g) \<union> {k. sint i \<le> sint k \<and> sint k < sint t}
     \<and> (\<forall>k. sint i \<le> sint k \<and> sint k < sint t \<longrightarrow>
           (\<exists>u. Mapping.lookup (users g') k = Some u \<and> ID u = k \<and> stopChan u = Open))
     \<and> (\<forall>k. \<not> (sint i \<le> sint k \<and> sint k < sint t) \<longrightarrow>
           Mapping.lookup (users g') k = Mapping.lookup (users g) k)
     \<and> events g' = events g @ map (\<lambda>j. Started (word_of_int j)) [sint i..sint t - 1]
     \<and> spoofer_ok (ipSpoofer g')
     \<and> config g' = config g \<and> running g' = running g \<and> gen_stopChan g' = gen_stopChan g
     \<and> requestCount g' = requestCount g \<and> requestsStart g' = requestsStart g
     \<and> urlManager g' = urlManager g"
  using assms
proof (induction g i t rule: add_loop.induct)
  case (1 g i t)
  show ?case
  proof (cases "i <s t")
    case False
    then have "add_loop g i t = Inr g"
      by (simp add: add_loop.simps)
    moreover from False have "{k. sint i \<le> sint k \<and> sint k < sint t} = {}"
      by (auto simp add: word_sless_alt)
    moreover from False have "[sint i..sint t - 1] = []"
      by (simp add: word_sless_alt)
    ultimately show ?thesis
      using "1.prems" False by (auto simp add: word_sless_alt)
  next
    case True
    let ?user = "\<lparr>ID = i, SourceIP = drawn_IP (ipSpoofer g), stopChan = Open\<rparr>"
    let ?g1 = "BrowserUser_Start ?user
                 (g\<lparr>ipSpoofer := advance (ipSpoofer g), users := Mapping.update i ?user (users g)\<rparr>)"
    have new: "NewBrowserUser i (ipSpoofer g) = (Inr ?user, advance (ipSpoofer g))"
      using "1.prems" by (rule NewBrowserUser_ok)
    have ok1: "spoofer_ok (ipSpoofer ?g1)"
      using "1.prems" by (simp add: BrowserUser_Start_def)
    from "1.IH" [OF True new [symmetric] refl ok1]
    obtain g' where g': "add_loop ?g1 (i + 1) t = Inr g'"
      and keys: "Mapping.keys (users g') = Mapping.keys (users ?g1) \<union> {k. sint (i + 1) \<le> sint k \<and> sint k < sint t}"
      and new_users: "\<forall>k. sint (i + 1) \<le> sint k \<and> sint k < sint t \<longrightarrow>
           (\<exists>u. Mapping.lookup (users g') k = Some u \<and> ID u = k \<and> stopChan u = Open)"
      and old_users: "\<forall>k. \<not> (sint (i + 1) \<le> sint k \<and> sint k < sint t) \<longrightarrow>
           Mapping.lookup (users g') k = Mapping.lookup (users ?g1) k"
      and ev: "events g' = events ?g1 @ map (\<lambda>j. Started (word_of_int j)) [sint (i + 1)..sint t - 1]"
      and rest: "spoofer_ok (ipSpoofer g')" "config g' = config ?g1" "running g' = running ?g1"
        "gen_stopChan g' = gen_stopChan ?g1" "requestCount g' = requestCount ?g1"
        "requestsStart g' = requestsStart ?g1" "urlManager g' = urlManager ?g1"
      by blast
    have succ: "sint (i + 1) = sint i + 1"
      using True by (rule sint_succ)
    have lt: "sint i < sint t"
      using True by (simp add: word_sless_alt)
    have eq_i: "sint k = sint i \<longleftrightarrow> k = i" for k :: go_int
      by (auto intro: signed_word_eqI)
    have run: "add_loop g i t = Inr g'"
      using True new g' by (subst add_loop.simps) simp
    have k1: "Mapping.keys (users g') = Mapping.keys (users g) \<union> {k. sint i \<le> sint k \<and> sint k < sint t}"
    proof -
      have "{k. sint i \<le> sint k \<and> sint k < sint t}
             = insert i {k. sint i + 1 \<le> sint k \<and> sint k < sint t}"
      proof (rule set_eqI)
        fix k :: go_int
        show "k \<in> {k. sint i \<le> sint k \<and> sint k < sint t}
                \<longleftrightarrow> k \<in> insert i {k. sint i + 1 \<le> sint k \<and> sint k < sint t}"
        proof (cases "k = i")
          case True
          with lt show ?thesis by simp
        next
          case False
          then have "sint k \<noteq> sint i" using eq_i by simp
          then have "sint i \<le> sint k \<longleftrightarrow> sint i + 1 \<le> sint k" by linarith
          with False show ?thesis by simp
        qed
      qed
      then show ?thesis
        using keys by (simp add: succ BrowserUser_Start_def)
    qed
    have k2: "\<forall>k. sint i \<le> sint k \<and> sint k < sint t \<longrightarrow>
           (\<exists>u. Mapping.lookup (users g') k = Some u \<and> ID u = k \<and> stopChan u = Open)"
    proof (intro allI impI)
      fix k :: go_int assume k: "sint i \<le> sint k \<and> sint k < sint t"
      show "\<exists>u. Mapping.lookup (users g') k = Some u \<and> ID u = k \<and> stopChan u = Open"
      proof (cases "k = i")
        case True
        then have "Mapping.lookup (users g') k = Mapping.lookup (users ?g1) k"
          using old_users by (simp add: succ)
        then show ?thesis
          using True by (simp add: BrowserUser_Start_def)
      next
        case False
        then have "sint k \<noteq> sint i" using eq_i by simp
        with k have "sint (i + 1) \<le> sint k \<and> sint k < sint t"
          unfolding succ by linarith
        with new_users show ?thesis by blast
      qed
    qed
    have k3: "\<forall>k. \<not> (sint i \<le> sint k \<and> sint k < sint t) \<longrightarrow>
           Mapping.lookup (users g') k = Mapping.lookup (users g) k"
    proof (intro allI impI)
      fix k :: go_int assume k: "\<not> (sint i \<le> sint k \<and> sint k < sint t)"
      with lt have ne: "i \<noteq> k" by auto
      from k have "\<not> (sint (i + 1) \<le> sint k \<and> sint k < sint t)"
        unfolding succ by linarith
      with old_users have "Mapping.lookup (users g') k = Mapping.lookup (users ?g1) k"
        by blast
      with ne show "Mapping.lookup (users g') k = Mapping.lookup (users g) k"
        by (simp add: BrowserUser_Start_def)
    qed
    have "[sint i..sint t - 1] = sint i # [sint i + 1..sint t - 1]"
      using lt by (simp add: upto_rec1)
    then have k4: "events g' = events g @ map (\<lambda>j. Started (word_of_int j)) [sint i..sint t - 1]"
      using ev by (simp add: succ BrowserUser_Start_def)
    from run k1 k2 k3 k4 rest show ?thesis
      by (simp add: BrowserUser_Start_def)
  qed
qed

lemma lookup_delete_if:
  "Mapping.lookup (Mapping.delete i m) k = (if k = i then None else Mapping.lookup m k)"
  by (cases "k = i") simp_all

lemma all_open_delete:
  assumes "all_open g"
  shows "all_open (g\<lparr>users := Mapping.delete i (users g), events := ev\<rparr>)"
  using assms by (auto simp add: all_open_def lookup_delete_if split: if_splits)

lemma remove_loop_spec:
  assumes "all_open g" and "sint t \<noteq> - (2 ^ 63)"
  shows "\<exists>g'. remove_loop g i t = Some (Inr g')
     \<and> Mapping.keys (users g') = Mapping.keys (users g) - {k. sint t \<le> sint k \<and> sint k \<le> sint i}
     \<and> (\<forall>k. \<not> (sint t \<le> sint k \<and> sint k \<le> sint i) \<longrightarrow>
           Mapping.lookup (users g') k = Mapping.lookup (users g) k)
     \<and> events g' = events g @ concat (map (\<lambda>j. if word_of_int j \<in> Mapping.keys (users g)
                                      then [Cancelled (word_of_int j), Deleted (word_of_int j)] else [])
                                   (rev [sint t..sint i]))
     \<and> ipSpoofer g' = ipSpoofer g \<and> wg g' = wg g
     \<and> config g' = config g \<and> running g' = running g \<and> gen_stopChan g' = gen_stopChan g
     \<and> requestCount g' = requestCount g \<and> requestsStart g' = requestsStart g
     \<and> urlManager g' = urlManager g"
  using assms(1)
proof (induction "nat (sint i - sint t + 1)" arbitrary: g i)
  case 0
  then have "\<not> t \<le>s i"
    by (simp add: word_sle_eq)
  then have "remove_loop g i t = Some (Inr g)"
    by (subst remove_loop.simps) simp
  moreover from 0 have "{k. sint t \<le> sint k \<and> sint k \<le> sint i} = {}"
    by auto
  moreover from 0 have "[sint t..sint i] = []"
    by simp
  ultimately show ?case
    using 0 by auto
next
  case (Suc m)
  then have le: "sint t \<le> sint i"
    by linarith
  with assms(2) have "sint i \<noteq> - (2 ^ 63)"
    using sint_ge [of t] by simp
  then have pred: "sint (i - 1) = sint i - 1"
    by (rule sint_pred)
  have m: "m = nat (sint (i - 1) - sint t + 1)"
    using Suc.hyps(2) by (simp add: pred)
  have eq_i: "sint k = sint i \<longleftrightarrow> k = i" for k :: go_int
    by (auto intro: signed_word_eqI)
  have i_back: "word_of_int (sint i) = i"
    by simp
  have upto: "rev [sint t..sint i] = sint i # rev [sint t..sint i - 1]"
    using le by (simp add: upto_rec2)
  have range: "(sint t \<le> sint k \<and> sint k \<le> sint i) \<longleftrightarrow> k = i \<or> (sint t \<le> sint k \<and> sint k \<le> sint i - 1)"
    for k :: go_int
  proof (cases "k = i")
    case True
    with le show ?thesis by simp
  next
    case False
    then have "sint k \<noteq> sint i" using eq_i by simp
    then have "sint k \<le> sint i \<longleftrightarrow> sint k \<le> sint i - 1" by linarith
    with False show ?thesis by simp
  qed
  show ?case
  proof (cases "Mapping.lookup (users g) i")
    case None
    then have notin: "i \<notin> Mapping.keys (users g)"
      by (simp add: keys_dom_lookup domIff)
    from Suc.hyps(1) [OF m Suc.prems]
    obtain g' where g': "remove_loop g (i - 1) t = Some (Inr g')"
      and keys: "Mapping.keys (users g') = Mapping.keys (users g) - {k. sint t \<le> sint k \<and> sint k \<le> sint (i - 1)}"
      and others: "\<forall>k. \<not> (sint t \<le> sint k \<and> sint k \<le> sint (i - 1)) \<longrightarrow>
           Mapping.lookup (users g') k = Mapping.lookup (users g) k"
      and ev: "events g' = events g @ concat (map (\<lambda>j. if word_of_int j \<in> Mapping.keys (users g)
                                      then [Cancelled (word_of_int j), Deleted (word_of_int j)] else [])
                                   (rev [sint t..sint (i - 1)]))"
      and rest: "ipSpoofer g' = ipSpoofer g" "wg g' = wg g" "config g' = config g"
        "running g' = running g" "gen_stopChan g' = gen_stopChan g"
        "requestCount g' = requestCount g" "requestsStart g' = requestsStart g"
        "urlManager g' = urlManager g"
      by blast
    have run: "remove_loop g i t = Some (Inr g')"
      using le None g' by (subst remove_loop.simps) (simp add: word_sle_eq)
    have k1: "Mapping.keys (users g') = Mapping.keys (users g) - {k. sint t \<le> sint k \<and> sint k \<le> sint i}"
      using keys notin unfolding pred by (auto simp add: range)
    have k2: "\<forall>k. \<not> (sint t \<le> sint k \<and> sint k \<le> sint i) \<longrightarrow>
           Mapping.lookup (users g') k = Mapping.lookup (users g) k"
      using others unfolding pred by (auto simp add: range)
    have k3: "events g' = events g @ concat (map (\<lambda>j. if word_of_int j \<in> Mapping.keys (users g)
                                      then [Cancelled (word_of_int j), Deleted (word_of_int j)] else [])
                                   (rev [sint t..sint i]))"
      using ev notin unfolding pred upto by (simp add: i_back)
    from run k1 k2 k3 rest show ?thesis by simp
  next
    case (Some user)
    then have isin: "i \<in> Mapping.keys (users g)"
      by (simp add: keys_dom_lookup domIff)
    from Some Suc.prems have "stopChan user = Open"
      by (simp add: all_open_def)
    then have stop: "BrowserUser_Stop user = Inr (user\<lparr>stopChan := Closed\<rparr>)"
      by (simp add: BrowserUser_Stop_def)
    let ?g1 = "g\<lparr>users := Mapping.delete i (users g), events := events g @ [Cancelled i, Deleted i]\<rparr>"
    have open1: "all_open ?g1"
      using Suc.prems by (rule all_open_delete)
    from Suc.hyps(1) [OF m open1]
    obtain g' where g': "remove_loop ?g1 (i - 1) t = Some (Inr g')"
      and keys: "Mapping.keys (users g') = Mapping.keys (users ?g1) - {k. sint t \<le> sint k \<and> sint k \<le> sint (i - 1)}"
      and others: "\<forall>k. \<not> (sint t \<le> sint k \<and> sint k \<le> sint (i - 1)) \<longrightarrow>
           Mapping.lookup (users g') k = Mapping.lookup (users ?g1) k"
      and ev: "events g' = events ?g1 @ concat (map (\<lambda>j. if word_of_int j \<in> Mapping.keys (users ?g1)
                                      then [Cancelled (word_of_int j), Deleted (word_of_int j)] else [])
                                   (rev [sint t..sint (i - 1)]))"
      and rest: "ipSpoofer g' = ipSpoofer ?g1" "wg g' = wg ?g1" "config g' = config ?g1"
        "running g' = running ?g1" "gen_stopChan g' = gen_stopChan ?g1"
        "requestCount g' = requestCount ?g1" "requestsStart g' = requestsStart ?g1"
        "urlManager g' = urlManager ?g1"
      by blast
    have run: "remove_loop g i t = Some (Inr g')"
      using le Some stop g' by (subst remove_loop.simps) (simp add: word_sle_eq)
    have k1: "Mapping.keys (users g') = Mapping.keys (users g) - {k. sint t \<le> sint k \<and> sint k \<le> sint i}"
      using keys unfolding pred by (auto simp add: range)
    have k2: "\<forall>k. \<not> (sint t \<le> sint k \<and> sint k \<le> sint i) \<longrightarrow>
           Mapping.lookup (users g') k = Mapping.lookup (users g) k"
      using others unfolding pred by (auto simp add: range)
    have same: "map (\<lambda>j. if word_of_int j \<in> Mapping.keys (users ?g1)
                          then [Cancelled (word_of_int j), Deleted (word_of_int j)] else [])
                    (rev [sint t..sint i - 1])
                = map (\<lambda>j. if word_of_int j \<in> Mapping.keys (users g)
                          then [Cancelled (word_of_int j), Deleted (word_of_int j)] else [])
                    (rev [sint t..sint i - 1])"
    proof (rule map_cong [OF refl])
      fix j assume "j \<in> set (rev [sint t..sint i - 1])"
      then have j: "sint t \<le> j" "j \<le> sint i - 1" by simp_all
      have "- (2 ^ 63) \<le> j" "j < 2 ^ 63"
        using j sint_ge [of t] sint_lt [of i] by simp_all
      then have "sint (word_of_int j :: go_int) = j"
        by (simp add: signed_of_int signed_take_bit_int_eq_self)
      with j have "(word_of_int j :: go_int) \<noteq> i" by auto
      then show "(if word_of_int j \<in> Mapping.keys (users ?g1)
                          then [Cancelled (word_of_int j), Deleted (word_of_int j)] else [])
           = (if word_of_int j \<in> Mapping.keys (users g)
                          then [Cancelled (word_of_int j), Deleted (word_of_int j)] else [])"
        by simp
    qed
    have k3: "events g' = events g @ concat (map (\<lambda>j. if word_of_int j \<in> Mapping.keys (users g)
                                      then [Cancelled (word_of_int j), Deleted (word_of_int j)] else [])
                                   (rev [sint t..sint i]))"
      using ev isin unfolding pred upto same by (simp add: i_back)
    from run k1 k2 k3 rest show ?thesis by simp
  qed
qed

text \<open>
  With the least \<open>int\<close> as target the condition \<open>i >= targetCount\<close> holds for every
  \<open>i\<close>, and \<open>i--\<close> wraps around: the loop does not return.
\<close>

lemma remove_loop_min_int:
  assumes "all_open g"
  shows "remove_loop g i (- 9223372036854775808) = None"
proof (rule ccontr)
  assume "remove_loop g i (- 9223372036854775808) \<noteq> None"
  then obtain y where y: "remove_loop g i (- 9223372036854775808) = Some y"
    by auto
  have "(- 9223372036854775808 :: go_int) = - 9223372036854775808 \<longrightarrow> all_open g \<longrightarrow> False"
  proof (rule remove_loop.raw_induct
      [where P = "\<lambda>g i t y. t = - 9223372036854775808 \<longrightarrow> all_open g \<longrightarrow> False", OF _ y])
    fix rl :: "TrafficGenerator \<Rightarrow> go_int \<Rightarrow> go_int \<Rightarrow> (go_panic + TrafficGenerator) option"
    fix g i t y
    assume IH: "\<And>g i t y. rl g i t = Some y \<Longrightarrow> t = - 9223372036854775808 \<longrightarrow> all_open g \<longrightarrow> False"
    assume body:
      "(if t \<le>s i
        then case Mapping.lookup (users g) i of
               None \<Rightarrow> rl g (i - 1) t
             | Some user \<Rightarrow>
                 (case BrowserUser_Stop user of
                    Inl p \<Rightarrow> Some (Inl p)
                  | Inr stopped \<Rightarrow>
                      rl (g\<lparr>users := Mapping.delete i (users g),
                            events := events g @ [Cancelled i, Deleted i]\<rparr>)
                         (i - 1) t)
        else Some (Inr g)) = Some y"
    show "t = - 9223372036854775808 \<longrightarrow> all_open g \<longrightarrow> False"
    proof (intro impI)
      assume t: "t = - 9223372036854775808" and op: "all_open g"
      have always: "t \<le>s i"
        using sint_ge [of i] t by (simp add: word_sle_eq)
      show False
      proof (cases "Mapping.lookup (users g) i")
        case None
        with always body have "rl g (i - 1) t = Some y"
          by simp
        with IH t op show False
          by blast
      next
        case (Some user)
        with op have "stopChan user = Open"
          by (simp add: all_open_def)
        then have stop: "BrowserUser_Stop user = Inr (user\<lparr>stopChan := Closed\<rparr>)"
          by (simp add: BrowserUser_Stop_def)
        let ?g1 = "g\<lparr>users := Mapping.delete i (users g), events := events g @ [Cancelled i, Deleted i]\<rparr>"
        have open1: "all_open ?g1"
          using op by (rule all_open_delete)
        from always Some stop body have "rl ?g1 (i - 1) t = Some y"
          by simp
        with IH t open1 show False
          by blast
      qed
    qed
  qed
  with assms show False
    by simp
qed


section \<open>IPSpoofer: constructor and range of the drawn address\<close>

lemma NewIPSpoofer_accepts:
  "NewIPSpoofer ParseIP_To4 source startIPStr endIPStr = Inr sp \<longleftrightarrow>
     (\<exists>a b. ParseIP_To4 startIPStr = Some a \<and> ParseIP_To4 endIPStr = Some b
        \<and> ipToUint32 a \<le> ipToUint32 b
        \<and> sp = \<lparr>startIP = a, endIP = b, sp_rand = source\<rparr>)"
  by (auto simp add: NewIPSpoofer_def start_after_end_iff not_less split: option.splits)

text \<open>
  For every accepted range but the full one, the address drawn lies within the range:
  the string returned is the dotted form of a 32-bit value between the bounds.
\<close>

lemma GetRandomIP_in_range:
  assumes "NewIPSpoofer ParseIP_To4 source startIPStr endIPStr = Inr sp"
    and "(startIP sp, endIP sp) \<noteq> ((0, 0, 0, 0), (255, 255, 255, 255))"
  shows "\<exists>x. fst (GetRandomIP sp) = Inr (IP_String (uint32ToIP x))
            \<and> ipToUint32 (uint32ToIP x) = x
            \<and> ipToUint32 (startIP sp) \<le> x \<and> x \<le> ipToUint32 (endIP sp)"
proof -
  from assms(1) have le: "ipToUint32 (startIP sp) \<le> ipToUint32 (endIP sp)"
    by (auto simp add: NewIPSpoofer_accepts)
  with assms(2) have "\<not> full_range sp"
    by (simp add: full_range_iff)
  with le obtain x r where "randomInt sp = Inr (x, r)"
    and "ipToUint32 (startIP sp) \<le> x" and "x \<le> ipToUint32 (endIP sp)"
    using randomInt_in_range [of sp] by blast
  then show ?thesis
    by (auto simp add: GetRandomIP_def ipToUint32_uint32ToIP)
qed

text \<open>
  C8. The constructor accepts the range 0.0.0.0 to 255.255.255.255, and on it
  \<open>endInt - startInt + 1\<close> wraps around to 0, so that \<open>rand.Int63n\<close> is called with 0
  and \<open>GetRandomIP\<close> panics, whatever the generator delivers.
\<close>

theorem GetRandomIP_full_range_panics:
  "NewIPSpoofer example_ParseIP_To4 source ''0.0.0.0'' ''255.255.255.255''
     = Inr \<lparr>startIP = (0, 0, 0, 0), endIP = (255, 255, 255, 255), sp_rand = source\<rparr>
   \<and> GetRandomIP \<lparr>startIP = (0, 0, 0, 0), endIP = (255, 255, 255, 255), sp_rand = source\<rparr>
     = (Inl (Panic ''invalid argument to Int63n''),
        \<lparr>startIP = (0, 0, 0, 0), endIP = (255, 255, 255, 255), sp_rand = source\<rparr>)"
  by (simp add: NewIPSpoofer_def example_ParseIP_To4_def octets_def
      GetRandomIP_def randomInt_def ipToUint32_def Int63n_def)


section \<open>TrafficGenerator: one reconciliation step\<close>

lemma size_handles:
  assumes "Mapping.keys (users g) = handles n" and "n < 2 ^ 63"
  shows "Mapping.size (users g) = n" and "sint (len_users g) = int n"
proof -
  from assms show size: "Mapping.size (users g) = n"
    by (simp add: Mapping.size_def card_handles)
  from assms(2) show "sint (len_users g) = int n"
    by (simp add: len_users_def size sint_of_nat)
qed

lemma handles_grow:
  assumes "int n \<le> sint t"
  shows "handles n \<union> {k. int n \<le> sint k \<and> sint k < sint t} = handles (nat (sint t))"
  using assms by (auto simp add: handles_def)

lemma handles_shrink:
  assumes "sint t \<le> int n"
  shows "handles n - {k. sint t \<le> sint k \<and> sint k \<le> int n - 1} = handles (nat (sint t))"
  using assms by (auto simp add: handles_def)

lemma adjustActiveUsers_grow:
  assumes keys: "Mapping.keys (users g) = handles n" and n: "n < 2 ^ 63"
    and op: "all_open g" and sp: "spoofer_ok (ipSpoofer g)" and lt: "int n < sint t"
  shows "\<exists>g'. adjustActiveUsers g t = Some (Inr g')
     \<and> Mapping.keys (users g') = handles (nat (sint t))
     \<and> (\<forall>k. int n \<le> sint k \<and> sint k < sint t \<longrightarrow>
           (\<exists>u. Mapping.lookup (users g') k = Some u \<and> ID u = k \<and> stopChan u = Open))
     \<and> (\<forall>k. \<not> (int n \<le> sint k \<and> sint k < sint t) \<longrightarrow>
           Mapping.lookup (users g') k = Mapping.lookup (users g) k)
     \<and> events g' = events g @ map (\<lambda>j. Started (word_of_int j)) [int n..sint t - 1]
     \<and> all_open g' \<and> spoofer_ok (ipSpoofer g') \<and> gen_stopChan g' = gen_stopChan g"
proof -
  have cur: "sint (len_users g) = int n"
    using keys n by (rule size_handles)
  with lt have less: "len_users g <s t" and not_more: "\<not> t <s len_users g"
    by (simp_all add: word_sless_alt)
  from add_loop_spec [OF sp, of "len_users g" t]
  obtain g' where run: "add_loop g (len_users g) t = Inr g'"
    and k: "Mapping.keys (users g') = Mapping.keys (users g) \<union> {k. int n \<le> sint k \<and> sint k < sint t}"
    and new_users: "\<forall>k. int n \<le> sint k \<and> sint k < sint t \<longrightarrow>
           (\<exists>u. Mapping.lookup (users g') k = Some u \<and> ID u = k \<and> stopChan u = Open)"
    and old_users: "\<forall>k. \<not> (int n \<le> sint k \<and> sint k < sint t) \<longrightarrow>
           Mapping.lookup (users g') k = Mapping.lookup (users g) k"
    and ev: "events g' = events g @ map (\<lambda>j. Started (word_of_int j)) [int n..sint t - 1]"
    and rest: "spoofer_ok (ipSpoofer g')" "gen_stopChan g' = gen_stopChan g"
    unfolding cur by blast
  have res: "adjustActiveUsers g t = Some (Inr g')"
    using less not_more run by (simp add: adjustActiveUsers_def Let_def)
  have keys': "Mapping.keys (users g') = handles (nat (sint t))"
    using k keys lt handles_grow [of n t] by simp
  have "all_open g'"
    unfolding all_open_def
  proof (intro allI impI)
    fix k u assume look: "Mapping.lookup (users g') k = Some u"
    show "stopChan u = Open"
    proof (cases "int n \<le> sint k \<and> sint k < sint t")
      case True
      with new_users look show ?thesis by auto
    next
      case False
      with old_users look have "Mapping.lookup (users g) k = Some u" by simp
      with op show ?thesis by (simp add: all_open_def)
    qed
  qed
  with res keys' new_users old_users ev rest show ?thesis
    by blast
qed

lemma adjustActiveUsers_shrink:
  assumes keys: "Mapping.keys (users g) = handles n" and n: "n < 2 ^ 63"
    and op: "all_open g" and le: "sint t \<le> int n" and t: "sint t \<noteq> - (2 ^ 63)"
  shows "\<exists>g'. adjustActiveUsers g t = Some (Inr g')
     \<and> Mapping.keys (users g') = handles (nat (sint t))
     \<and> (\<forall>k. \<not> (sint t \<le> sint k \<and> sint k \<le> int n - 1) \<longrightarrow>
           Mapping.lookup (users g') k = Mapping.lookup (users g) k)
     \<and> events g' = events g @ concat (map (\<lambda>j. if word_of_int j \<in> Mapping.keys (users g)
                                      then [Cancelled (word_of_int j), Deleted (word_of_int j)] else [])
                                   (rev [sint t..int n - 1]))
     \<and> all_open g' \<and> ipSpoofer g' = ipSpoofer g \<and> gen_stopChan g' = gen_stopChan g"
proof -
  have cur: "sint (len_users g) = int n"
    using keys n by (rule size_handles)
  with le have not_less: "\<not> len_users g <s t"
    by (simp add: word_sless_alt)
  show ?thesis
  proof (cases "sint t = int n")
    case True
    with cur have "\<not> t <s len_users g"
      by (simp add: word_sless_alt)
    with not_less have res: "adjustActiveUsers g t = Some (Inr g)"
      by (simp add: adjustActiveUsers_def Let_def)
    from True have "[sint t..int n - 1] = []"
      by simp
    with res keys op True show ?thesis
      by simp
  next
    case False
    with le cur have more: "t <s len_users g"
      by (simp add: word_sless_alt)
    have "sint (len_users g) \<noteq> - (2 ^ 63)"
      using cur by simp
    then have pred: "sint (len_users g - 1) = int n - 1"
      using cur by (simp add: sint_pred)
    from remove_loop_spec [OF op t, of "len_users g - 1"]
    obtain g' where run: "remove_loop g (len_users g - 1) t = Some (Inr g')"
      and k: "Mapping.keys (users g') = Mapping.keys (users g) - {k. sint t \<le> sint k \<and> sint k \<le> int n - 1}"
      and others: "\<forall>k. \<not> (sint t \<le> sint k \<and> sint k \<le> int n - 1) \<longrightarrow>
           Mapping.lookup (users g') k = Mapping.lookup (users g) k"
      and ev: "events g' = events g @ concat (map (\<lambda>j. if word_of_int j \<in> Mapping.keys (users g)
                                      then [Cancelled (word_of_int j), Deleted (word_of_int j)] else [])
                                   (rev [sint t..int n - 1]))"
      and rest: "ipSpoofer g' = ipSpoofer g" "gen_stopChan g' = gen_stopChan g"
      unfolding pred by blast
    have res: "adjustActiveUsers g t = Some (Inr g')"
      using not_less more run by (simp add: adjustActiveUsers_def Let_def)
    have keys': "Mapping.keys (users g') = handles (nat (sint t))"
      using k keys le handles_shrink [of t n] by simp
    have "all_open g'"
      unfolding all_open_def
    proof (intro allI impI)
      fix k u assume look: "Mapping.lookup (users g') k = Some u"
      then have "k \<in> Mapping.keys (users g')"
        by (simp add: keys_dom_lookup domI)
      with k have "\<not> (sint t \<le> sint k \<and> sint k \<le> int n - 1)"
        by auto
      with others look have "Mapping.lookup (users g) k = Some u"
        by simp
      with op show "stopChan u = Open"
        by (simp add: all_open_def)
    qed
    with res keys' others ev rest show ?thesis
      by blast
  qed
qed

lemma live_ok_empty: "users g = Mapping.empty \<Longrightarrow> live_ok g"
  unfolding live_ok_def all_open_def
  by (auto intro: exI [of _ 0] simp add: handles_0)

lemma NewTrafficGenerator_live_ok:
  "NewTrafficGenerator fs ParseIP_To4 urlSource ipSource now cfg = Inr g \<Longrightarrow> live_ok g"
  by (rule live_ok_empty) (auto simp add: NewTrafficGenerator_def split: prod.splits option.splits sum.splits)

text \<open>
  A completed step leaves as many sessions as the target says, none for a negative target,
  provided the target is not the least \<open>int\<close> and the spoofer's range is not the full one.
\<close>

lemma adjustActiveUsers_spec:
  assumes live: "live_ok g" and sp: "spoofer_ok (ipSpoofer g)" and t: "sint t \<noteq> - (2 ^ 63)"
  shows "\<exists>g'. adjustActiveUsers g t = Some (Inr g')
     \<and> int (Mapping.size (users g')) = max (sint t) 0
     \<and> live_ok g' \<and> spoofer_ok (ipSpoofer g') \<and> gen_stopChan g' = gen_stopChan g"
proof -
  from live obtain n where n: "n < 2 ^ 63" and keys: "Mapping.keys (users g) = handles n"
    and op: "all_open g"
    by (auto simp add: live_ok_def)
  have bound: "nat (sint t) < 2 ^ 63"
    using sint_lt [of t] by (simp add: nat_less_iff)
  have "\<exists>g'. adjustActiveUsers g t = Some (Inr g')
     \<and> Mapping.keys (users g') = handles (nat (sint t))
     \<and> all_open g' \<and> spoofer_ok (ipSpoofer g') \<and> gen_stopChan g' = gen_stopChan g"
  proof (cases "int n < sint t")
    case True
    from adjustActiveUsers_grow [OF keys n op sp True] show ?thesis
      by blast
  next
    case False
    then have "sint t \<le> int n"
      by simp
    from adjustActiveUsers_shrink [OF keys n op this t] sp show ?thesis
      by auto
  qed
  then obtain g' where res: "adjustActiveUsers g t = Some (Inr g')"
    and keys': "Mapping.keys (users g') = handles (nat (sint t))"
    and rest: "all_open g'" "spoofer_ok (ipSpoofer g')" "gen_stopChan g' = gen_stopChan g"
    by blast
  have "Mapping.size (users g') = nat (sint t)"
    using keys' bound by (rule size_handles)
  then have "int (Mapping.size (users g')) = max (sint t) 0"
    by simp
  moreover have "live_ok g'"
    using keys' bound rest(1) by (auto simp add: live_ok_def)
  ultimately show ?thesis
    using res rest by blast
qed

text \<open>
  The same over the ticks of \<open>manageUsers\<close>: with the generator enabled at every tick, the
  stop channel open and no target the least \<open>int\<close>, the loop serves every tick and the
  live map has as many sessions as the last target says.
\<close>

lemma manageUsers_spec:
  assumes "live_ok g" and "spoofer_ok (ipSpoofer g)" and "gen_stopChan g = Open"
    and "\<forall>cfg \<in> set ticks. Enabled cfg \<and> sint (ConcurrentUsers cfg) \<noteq> - (2 ^ 63)"
  shows "\<exists>g'. manageUsers g ticks = Some (Inr (Waiting, g')) \<and> live_ok g'
     \<and> (ticks \<noteq> [] \<longrightarrow> int (Mapping.size (users g')) = max (sint (ConcurrentUsers (last ticks))) 0)"
  using assms
proof (induction ticks arbitrary: g)
  case Nil
  then show ?case by simp
next
  case (Cons cfg rest)
  let ?g = "g\<lparr>config := cfg\<rparr>"
  from Cons.prems have "live_ok ?g" "spoofer_ok (ipSpoofer ?g)"
    and t: "sint (ConcurrentUsers cfg) \<noteq> - (2 ^ 63)" and en: "Enabled cfg"
    by (simp_all add: live_ok_def all_open_def)
  from adjustActiveUsers_spec [OF this(1,2) t]
  obtain g1 where step: "adjustActiveUsers ?g (ConcurrentUsers cfg) = Some (Inr g1)"
    and size1: "int (Mapping.size (users g1)) = max (sint (ConcurrentUsers cfg)) 0"
    and ok1: "live_ok g1" "spoofer_ok (ipSpoofer g1)" "gen_stopChan g1 = gen_stopChan ?g"
    by blast
  have tick1: "tick ?g = Some (Inr g1)"
    using en step by (simp add: tick_def IsEnabled_def GetConcurrentUsers_def)
  from Cons.prems ok1 have open1: "gen_stopChan g1 = Open"
    by simp
  from Cons.prems have "\<forall>cfg \<in> set rest. Enabled cfg \<and> sint (ConcurrentUsers cfg) \<noteq> - (2 ^ 63)"
    by simp
  from Cons.IH [OF ok1(1,2) open1 this]
  obtain g' where run: "manageUsers g1 rest = Some (Inr (Waiting, g'))" and live': "live_ok g'"
    and size': "rest \<noteq> [] \<longrightarrow> int (Mapping.size (users g')) = max (sint (ConcurrentUsers (last rest))) 0"
    by blast
  have all: "manageUsers g (cfg # rest) = Some (Inr (Waiting, g'))"
    using Cons.prems(3) tick1 run by simp
  show ?case
  proof (cases "rest = []")
    case True
    with run open1 have "g' = g1" by simp
    with all live' size1 True show ?thesis by simp
  next
    case False
    with all live' size' show ?thesis by simp
  qed
qed


section \<open>TrafficGenerator: the claims about reconciliation\<close>

lemma handles_Suc_of_nat:
  assumes "n < 2 ^ 63"
  shows "handles (Suc n) = insert (of_nat n) (handles n)"
proof -
  have "sint (of_nat n :: go_int) = int n"
    using assms by (rule sint_of_nat)
  then show ?thesis
    using handles_Suc [of "of_nat n :: go_int"] by simp
qed

lemma handles_upto_5:
  shows handles_1: "handles 1 = {0}"
    and handles_2: "handles 2 = {0, 1}"
    and handles_3: "handles 3 = {0, 1, 2}"
    and handles_4: "handles 4 = {0, 1, 2, 3}"
    and handles_5: "handles 5 = {0, 1, 2, 3, 4}"
proof -
  have small: "(0::nat) < 2 ^ 63" "(1::nat) < 2 ^ 63" "(2::nat) < 2 ^ 63" "(3::nat) < 2 ^ 63"
    "(4::nat) < 2 ^ 63"
    by simp_all
  show 1: "handles 1 = {0}"
    using handles_Suc_of_nat [OF small(1)] by (simp add: handles_0)
  have "handles (Suc 1) = insert 1 (handles 1)"
    using handles_Suc_of_nat [OF small(2)] by simp
  then show 2: "handles 2 = {0, 1}"
    unfolding 1 by (simp add: numeral_2_eq_2 insert_commute)
  have "handles (Suc 2) = insert 2 (handles 2)"
    using handles_Suc_of_nat [OF small(3)] by simp
  then show 3: "handles 3 = {0, 1, 2}"
    unfolding 2 by (simp add: numeral_3_eq_3 numeral_2_eq_2 insert_commute)
  have "handles (Suc 3) = insert 3 (handles 3)"
    using handles_Suc_of_nat [OF small(4)] by simp
  moreover have "Suc 3 = 4"
    by simp
  ultimately show 4: "handles 4 = {0, 1, 2, 3}"
    unfolding 3 by (simp add: insert_commute)
  have "handles (Suc 4) = insert 4 (handles 4)"
    using handles_Suc_of_nat [OF small(5)] by simp
  moreover have "Suc 4 = 5"
    by simp
  ultimately show "handles 5 = {0, 1, 2, 3, 4}"
    unfolding 4 by (simp add: insert_commute)
qed

lemma spoofer_ok_example: "spoofer_ok (ipSpoofer example_generator)"
  by (simp add: spoofer_ok_def full_range_def example_generator_def ipToUint32_def)

lemma five_then_two:
  assumes empty: "users g = Mapping.empty" and sp: "spoofer_ok (ipSpoofer g)"
  shows "\<exists>g5 g2. adjustActiveUsers g 5 = Some (Inr g5)
     \<and> Mapping.keys (users g5) = {0, 1, 2, 3, 4}
     \<and> (\<forall>k \<in> {0, 1, 2, 3, 4}. \<exists>u. Mapping.lookup (users g5) k = Some u \<and> ID u = k \<and> stopChan u = Open)
     \<and> events g5 = events g @ [Started 0, Started 1, Started 2, Started 3, Started 4]
     \<and> adjustActiveUsers g5 2 = Some (Inr g2)
     \<and> Mapping.keys (users g2) = {0, 1}
     \<and> Mapping.lookup (users g2) 0 = Mapping.lookup (users g5) 0
     \<and> Mapping.lookup (users g2) 1 = Mapping.lookup (users g5) 1
     \<and> events g2 = events g5 @ [Cancelled 4, Deleted 4, Cancelled 3, Deleted 3, Cancelled 2, Deleted 2]"
proof -
  have keys0: "Mapping.keys (users g) = handles 0" and op0: "all_open g"
    using empty by (simp_all add: handles_0 all_open_def)
  have up: "[int 0..sint (5::go_int) - 1] = [0, 1, 2, 3, 4]"
    by (simp add: upto_rec1)
  have n0: "(0::nat) < 2 ^ 63" and lt: "int 0 < sint (5::go_int)"
    by simp_all
  from adjustActiveUsers_grow [OF keys0 n0 op0 sp lt]
  obtain g5 where r5: "adjustActiveUsers g 5 = Some (Inr g5)"
    and k5r: "Mapping.keys (users g5) = handles (nat (sint (5::go_int)))"
    and new5: "\<forall>k. int 0 \<le> sint k \<and> sint k < sint (5::go_int) \<longrightarrow>
           (\<exists>u. Mapping.lookup (users g5) k = Some u \<and> ID u = k \<and> stopChan u = Open)"
    and ev5r: "events g5 = events g @ map (\<lambda>j. Started (word_of_int j)) [int 0..sint (5::go_int) - 1]"
    and op5: "all_open g5"
    by blast
  have k5: "Mapping.keys (users g5) = handles 5"
    using k5r by simp
  have ev5: "events g5 = events g @ [Started 0, Started 1, Started 2, Started 3, Started 4]"
    unfolding ev5r up by simp
  have users5: "\<forall>k \<in> {0, 1, 2, 3, 4}. \<exists>u. Mapping.lookup (users g5) k = Some u \<and> ID u = k \<and> stopChan u = Open"
  proof
    fix k :: go_int assume "k \<in> {0, 1, 2, 3, 4}"
    then have "int 0 \<le> sint k \<and> sint k < sint (5::go_int)"
      by auto
    with new5 show "\<exists>u. Mapping.lookup (users g5) k = Some u \<and> ID u = k \<and> stopChan u = Open"
      by blast
  qed
  have down: "rev [sint (2::go_int)..int 5 - 1] = [4, 3, 2]"
    by (simp add: upto_rec1)
  have n5: "(5::nat) < 2 ^ 63" and le: "sint (2::go_int) \<le> int 5" and t2: "sint (2::go_int) \<noteq> - (2 ^ 63)"
    by simp_all
  from adjustActiveUsers_shrink [OF k5 n5 op5 le t2]
  obtain g2 where r2: "adjustActiveUsers g5 2 = Some (Inr g2)"
    and k2r: "Mapping.keys (users g2) = handles (nat (sint (2::go_int)))"
    and others: "\<forall>k. \<not> (sint (2::go_int) \<le> sint k \<and> sint k \<le> int 5 - 1) \<longrightarrow>
           Mapping.lookup (users g2) k = Mapping.lookup (users g5) k"
    and ev2r: "events g2 = events g5 @ concat (map (\<lambda>j. if word_of_int j \<in> Mapping.keys (users g5)
                                      then [Cancelled (word_of_int j), Deleted (word_of_int j)] else [])
                                   (rev [sint (2::go_int)..int 5 - 1]))"
    by blast
  have k2: "Mapping.keys (users g2) = handles 2"
    using k2r by simp
  have ev2: "events g2 = events g5 @ [Cancelled 4, Deleted 4, Cancelled 3, Deleted 3, Cancelled 2, Deleted 2]"
    unfolding ev2r down k5 handles_5 by simp
  from others have l0: "Mapping.lookup (users g2) 0 = Mapping.lookup (users g5) 0"
    and l1: "Mapping.lookup (users g2) 1 = Mapping.lookup (users g5) 1"
    by simp_all
  have k5': "Mapping.keys (users g5) = {0, 1, 2, 3, 4}"
    using k5 by (simp only: handles_5)
  have k2': "Mapping.keys (users g2) = {0, 1}"
    using k2 by (simp only: handles_2)
  show ?thesis
  proof (intro exI conjI)
    show "adjustActiveUsers g 5 = Some (Inr g5)" by (fact r5)
    show "Mapping.keys (users g5) = {0, 1, 2, 3, 4}" by (fact k5')
    show "\<forall>k \<in> {0, 1, 2, 3, 4}. \<exists>u. Mapping.lookup (users g5) k = Some u \<and> ID u = k \<and> stopChan u = Open"
      by (fact users5)
    show "events g5 = events g @ [Started 0, Started 1, Started 2, Started 3, Started 4]" by (fact ev5)
    show "adjustActiveUsers g5 2 = Some (Inr g2)" by (fact r2)
    show "Mapping.keys (users g2) = {0, 1}" by (fact k2')
    show "Mapping.lookup (users g2) 0 = Mapping.lookup (users g5) 0" by (fact l0)
    show "Mapping.lookup (users g2) 1 = Mapping.lookup (users g5) 1" by (fact l1)
    show "events g2 = events g5 @ [Cancelled 4, Deleted 4, Cancelled 3, Deleted 3, Cancelled 2, Deleted 2]"
      by (fact ev2)
  qed
qed

lemma live_ok_example_three: "live_ok example_three"
proof -
  have "Mapping.keys (users example_three) = handles 3"
    by (auto simp add: example_three_def handles_3)
  moreover have "all_open example_three"
    by (auto simp add: all_open_def example_three_def Mapping.lookup_update' split: if_splits)
  ultimately show ?thesis
    unfolding live_ok_def by (intro conjI exI [of _ 3]) simp_all
qed

text \<open>
  C2. On a tick with the generator disabled, the target is 0 whatever the configured number
  of users: the tick returns, and the live map is empty afterwards. The live map before
  the tick is one that the reconciliation steps produce: handles \<open>0, \<dots>, n - 1\<close>, no
  session cancelled yet.
\<close>

theorem tick_disabled:
  assumes "live_ok g" and "\<not> IsEnabled (config g)"
  shows "tick g = adjustActiveUsers g 0
     \<and> (\<exists>g'. tick g = Some (Inr g') \<and> Mapping.keys (users g') = {}
            \<and> Mapping.size (users g') = 0 \<and> live_ok g')"
proof -
  from assms(1) obtain n where n: "n < 2 ^ 63" and keys: "Mapping.keys (users g) = handles n"
    and op: "all_open g"
    by (auto simp add: live_ok_def)
  have le: "sint (0::go_int) \<le> int n" and t: "sint (0::go_int) \<noteq> - (2 ^ 63)"
    by simp_all
  from adjustActiveUsers_shrink [OF keys n op le t]
  obtain g' where res: "adjustActiveUsers g 0 = Some (Inr g')"
    and keys': "Mapping.keys (users g') = handles (nat (sint (0::go_int)))"
    and op': "all_open g'"
    by blast
  from keys' have empty: "Mapping.keys (users g') = {}"
    by (simp add: handles_0)
  then have size: "Mapping.size (users g') = 0"
    by (simp add: Mapping.size_def)
  have live: "live_ok g'"
    unfolding live_ok_def using empty op' by (intro conjI exI [of _ 0]) (simp_all add: handles_0)
  have tick: "tick g = adjustActiveUsers g 0"
    using assms(2) by (simp add: tick_def)
  with res empty size live show ?thesis
    by simp
qed

theorem tick_disabled_witness:
  "live_ok example_three \<and> \<not> IsEnabled (config example_three)
   \<and> GetConcurrentUsers (config example_three) = 10
   \<and> Mapping.keys (users example_three) = {0, 1, 2}
   \<and> (\<exists>g'. tick example_three = Some (Inr g') \<and> Mapping.keys (users g') = {})"
proof -
  have dis: "\<not> IsEnabled (config example_three)"
    by (simp add: example_three_def example_config_def IsEnabled_def)
  have ten: "GetConcurrentUsers (config example_three) = 10"
    by (simp add: example_three_def example_config_def GetConcurrentUsers_def)
  have keys: "Mapping.keys (users example_three) = {0, 1, 2}"
    by (auto simp add: example_three_def)
  from tick_disabled [OF live_ok_example_three dis] live_ok_example_three dis ten keys
  show ?thesis
    by blast
qed

text \<open>
  C3. From an empty live map, the step to 5 creates the sessions with handles 0 to 4, in
  that order, each stored under its handle and started; the step to 2 then cancels and
  deletes the sessions 4, 3 and 2, in that order and each cancelled before it is deleted,
  and leaves the sessions 0 and 1 as they were.
\<close>

theorem adjustActiveUsers_five_then_two:
  assumes "users g = Mapping.empty" and "spoofer_ok (ipSpoofer g)"
  shows "\<exists>g5 g2. adjustActiveUsers g 5 = Some (Inr g5)
     \<and> Mapping.keys (users g5) = {0, 1, 2, 3, 4}
     \<and> (\<forall>k \<in> {0, 1, 2, 3, 4}. \<exists>u. Mapping.lookup (users g5) k = Some u \<and> ID u = k \<and> stopChan u = Open)
     \<and> events g5 = events g @ [Started 0, Started 1, Started 2, Started 3, Started 4]
     \<and> adjustActiveUsers g5 2 = Some (Inr g2)
     \<and> Mapping.keys (users g2) = {0, 1}
     \<and> Mapping.lookup (users g2) 0 = Mapping.lookup (users g5) 0
     \<and> Mapping.lookup (users g2) 1 = Mapping.lookup (users g5) 1
     \<and> events g2 = events g5 @ [Cancelled 4, Deleted 4, Cancelled 3, Deleted 3, Cancelled 2, Deleted 2]"
  using assms by (rule five_then_two)

theorem adjustActiveUsers_five_then_two_witness:
  "users example_generator = Mapping.empty \<and> spoofer_ok (ipSpoofer example_generator)
   \<and> (\<exists>g5 g2. adjustActiveUsers example_generator 5 = Some (Inr g5)
        \<and> Mapping.keys (users g5) = {0, 1, 2, 3, 4}
        \<and> adjustActiveUsers g5 2 = Some (Inr g2)
        \<and> Mapping.keys (users g2) = {0, 1}
        \<and> events g2 = [Started 0, Started 1, Started 2, Started 3, Started 4,
                        Cancelled 4, Deleted 4, Cancelled 3, Deleted 3, Cancelled 2, Deleted 2])"
proof -
  have empty: "users example_generator = Mapping.empty" and ev: "events example_generator = []"
    by (simp_all add: example_generator_def)
  from adjustActiveUsers_five_then_two [OF empty spoofer_ok_example]
  obtain g5 g2 where "adjustActiveUsers example_generator 5 = Some (Inr g5)"
    and "Mapping.keys (users g5) = {0, 1, 2, 3, 4}"
    and "events g5 = events example_generator @ [Started 0, Started 1, Started 2, Started 3, Started 4]"
    and "adjustActiveUsers g5 2 = Some (Inr g2)"
    and "Mapping.keys (users g2) = {0, 1}"
    and "events g2 = events g5 @ [Cancelled 4, Deleted 4, Cancelled 3, Deleted 3, Cancelled 2, Deleted 2]"
    by blast
  with empty spoofer_ok_example ev show ?thesis
    by auto
qed

text \<open>
  The step to 2 does not leave three sessions: on the example generator the handle 2 is
  removed as well, and the live map is \<open>{0, 1}\<close>, not \<open>{0, 1, 2}\<close>.
\<close>

theorem five_then_two_counterexample:
  "adjustActiveUsers example_generator 5 = Some (Inr (after_adjust example_generator 5))
   \<and> adjustActiveUsers (after_adjust example_generator 5) 2
       = Some (Inr (after_adjust (after_adjust example_generator 5) 2))
   \<and> Mapping.keys (users (after_adjust (after_adjust example_generator 5) 2)) = {0, 1}
   \<and> Mapping.keys (users (after_adjust (after_adjust example_generator 5) 2)) \<noteq> {0, 1, 2}
   \<and> events (after_adjust (after_adjust example_generator 5) 2)
       = [Started 0, Started 1, Started 2, Started 3, Started 4,
          Cancelled 4, Deleted 4, Cancelled 3, Deleted 3, Cancelled 2, Deleted 2]"
proof -
  have empty: "users example_generator = Mapping.empty" and ev: "events example_generator = []"
    by (simp_all add: example_generator_def)
  from five_then_two [OF empty spoofer_ok_example]
  obtain g5 g2 where r5: "adjustActiveUsers example_generator 5 = Some (Inr g5)"
    and ev5: "events g5 = events example_generator @ [Started 0, Started 1, Started 2, Started 3, Started 4]"
    and r2: "adjustActiveUsers g5 2 = Some (Inr g2)"
    and k2: "Mapping.keys (users g2) = {0, 1}"
    and ev2: "events g2 = events g5 @ [Cancelled 4, Deleted 4, Cancelled 3, Deleted 3, Cancelled 2, Deleted 2]"
    by blast
  have a5: "after_adjust example_generator 5 = g5"
    using r5 by (simp add: after_adjust_def)
  have a2: "after_adjust g5 2 = g2"
    using r2 by (simp add: after_adjust_def)
  have ne: "{0, 1} \<noteq> {0, 1, 2 :: go_int}"
  proof
    assume eq: "{0, 1} = {0, 1, 2 :: go_int}"
    have "(2 :: go_int) \<in> {0, 1, 2}"
      by simp
    with eq have "(2 :: go_int) \<in> {0, 1}"
      by (simp only:)
    then show False
      by simp
  qed
  show ?thesis
    unfolding a5 a2 using r5 r2 k2 ne ev ev5 ev2 by simp
qed

text \<open>
  C1. With the least \<open>int\<close> as target, the step does not return: every \<open>i\<close> satisfies
  \<open>i >= targetCount\<close>, and \<open>i--\<close> wraps around from the least to the greatest \<open>int\<close>.
\<close>

theorem adjustActiveUsers_min_int:
  assumes "live_ok g"
  shows "adjustActiveUsers g (- 9223372036854775808) = None"
proof -
  from assms obtain n where n: "n < 2 ^ 63" and keys: "Mapping.keys (users g) = handles n"
    and op: "all_open g"
    by (auto simp add: live_ok_def)
  have cur: "sint (len_users g) = int n"
    using keys n by (rule size_handles)
  have "\<not> len_users g <s - 9223372036854775808"
    using sint_ge [of "len_users g"] by (simp add: word_sless_alt)
  moreover have "- 9223372036854775808 <s len_users g"
    using cur by (simp add: word_sless_alt)
  ultimately show ?thesis
    using remove_loop_min_int [OF op] by (simp add: adjustActiveUsers_def Let_def)
qed

theorem adjustActiveUsers_min_int_witness:
  "live_ok example_three \<and> adjustActiveUsers example_three (- 9223372036854775808) = None"
  using adjustActiveUsers_min_int [OF live_ok_example_three] live_ok_example_three
  by simp

text \<open>
  With the full range in the spoofer, a step that has to add a session panics: the source
  address of the new session is drawn by \<open>GetRandomIP\<close>.
\<close>

lemma adjustActiveUsers_full_range:
  assumes "live_ok g" and "full_range (ipSpoofer g)" and "len_users g <s t"
  shows "adjustActiveUsers g t = Some (Inl (Panic ''invalid argument to Int63n''))"
proof -
  from assms(2) have "GetRandomIP (ipSpoofer g) = (Inl (Panic ''invalid argument to Int63n''), ipSpoofer g)"
    by (simp add: GetRandomIP_def randomInt_def Int63n_def full_range_def Let_def)
  then have "NewBrowserUser (len_users g) (ipSpoofer g)
               = (Inl (Panic ''invalid argument to Int63n''), ipSpoofer g)"
    by (simp add: NewBrowserUser_def)
  with assms(3) have "add_loop g (len_users g) t = Inl (Panic ''invalid argument to Int63n'')"
    by (subst add_loop.simps) simp
  with assms(3) show ?thesis
    by (simp add: adjustActiveUsers_def Let_def)
qed

end
